theory Spec2Isabelle
  imports Main "HOL-Library.Word"
begin

section \<open>Byte strings: the functions of Go's \<open>strings\<close> package that the runner uses\<close>

text \<open>
  A Go \<open>string\<close> is a sequence of bytes; it is modelled as \<^typ>\<open>string\<close>
  (a list of 8-bit characters). Indices are byte offsets, and a search that finds nothing
  returns \<open>-1\<close>, as in Go.
\<close>

definition lower_char :: "char \<Rightarrow> char" where
  "lower_char c =
     (case map_of (zip ''ABCDEFGHIJKLMNOPQRSTUVWXYZ'' ''abcdefghijklmnopqrstuvwxyz'') c of
        Some l \<Rightarrow> l
      | None \<Rightarrow> c)"

text \<open>
  \<open>strings.ToLower\<close>. A string of ASCII bytes only is lowered byte by byte, \<open>A..Z\<close> to
  \<open>a..z\<close>. Any other string goes through \<open>strings.Map(unicode.ToLower, s)\<close>, which decodes
  UTF-8 and consults the case tables of the \<open>unicode\<close> package (there \<open>U+0130\<close> lowers to
  \<open>i\<close> and \<open>U+212A\<close> to \<open>k\<close>); that library function is the parameter \<open>unicodeLower\<close>.
\<close>

type_synonym unicode_lower = "string \<Rightarrow> string"

definition is_ascii :: "char \<Rightarrow> bool" where
  "is_ascii c = (of_char c < (128 :: nat))"

definition ToLower :: "unicode_lower \<Rightarrow> string \<Rightarrow> string" where
  "ToLower unicodeLower s =
     (if list_all is_ascii s then map lower_char s else unicodeLower s)"

fun HasPrefix :: "string \<Rightarrow> string \<Rightarrow> bool" where
  "HasPrefix s [] = True"
| "HasPrefix [] (p # ps) = False"
| "HasPrefix (c # cs) (p # ps) = (c = p \<and> HasPrefix cs ps)"

definition HasSuffix :: "string \<Rightarrow> string \<Rightarrow> bool" where
  "HasSuffix s suf = HasPrefix (rev s) (rev suf)"

text \<open>\<open>strings.Index\<close>: offset of the first occurrence of \<open>sub\<close>, or \<open>-1\<close>.\<close>

fun Index :: "string \<Rightarrow> string \<Rightarrow> int" where
  "Index [] sub = (if sub = [] then 0 else -1)"
| "Index (c # cs) sub =
     (if HasPrefix (c # cs) sub then 0
      else (let i = Index cs sub in if i = -1 then -1 else i + 1))"

text \<open>\<open>strings.LastIndex\<close>: offset of the last occurrence of \<open>sub\<close>, or \<open>-1\<close>.\<close>

fun LastIndex :: "string \<Rightarrow> string \<Rightarrow> int" where
  "LastIndex [] sub = (if sub = [] then 0 else -1)"
| "LastIndex (c # cs) sub =
     (let i = LastIndex cs sub in
      if i \<noteq> -1 then i + 1
      else if HasPrefix (c # cs) sub then 0 else -1)"

definition Contains :: "string \<Rightarrow> string \<Rightarrow> bool" where
  "Contains s sub = (Index s sub \<noteq> -1)"

text \<open>
  \<open>strings.Split\<close> and \<open>strings.SplitN\<close> for a separator of one byte, the only kind the
  runner passes. An empty string splits into one empty piece. \<open>SplitN s sep n\<close> returns at
  most \<open>n\<close> pieces, the last one holding the unsplit rest.
\<close>

fun Split :: "string \<Rightarrow> char \<Rightarrow> string list" where
  "Split [] sep = [[]]"
| "Split (c # cs) sep =
     (if c = sep then [] # Split cs sep
      else (case Split cs sep of [] \<Rightarrow> [[c]] | e # es \<Rightarrow> (c # e) # es))"

fun SplitN :: "string \<Rightarrow> char \<Rightarrow> nat \<Rightarrow> string list" where
  "SplitN s sep 0 = []"
| "SplitN s sep (Suc 0) = [s]"
| "SplitN [] sep (Suc (Suc n)) = [[]]"
| "SplitN (c # cs) sep (Suc (Suc n)) =
     (if c = sep then [] # SplitN cs sep (Suc n)
      else (case SplitN cs sep (Suc (Suc n)) of [] \<Rightarrow> [[c]] | e # es \<Rightarrow> (c # e) # es))"

text \<open>
  White space is what \<open>unicode.IsSpace\<close> accepts: tab, line feed, vertical tab, form feed,
  carriage return and space, each one byte, and the runes \<open>U+0085\<close>, \<open>U+00A0\<close> (two bytes
  in UTF-8), \<open>U+1680\<close>, \<open>U+2000\<close> to \<open>U+200A\<close>, \<open>U+2028\<close>, \<open>U+2029\<close>, \<open>U+202F\<close>,
  \<open>U+205F\<close> and \<open>U+3000\<close> (three bytes). A byte that starts no valid encoding decodes to
  \<open>U+FFFD\<close>, which is not white space.
\<close>

definition ascii_space :: "char \<Rightarrow> bool" where
  "ascii_space c = (c \<in> set [CHR 0x09, CHR 0x0A, CHR 0x0B, CHR 0x0C, CHR 0x0D, CHR 0x20])"

definition space2 :: "char \<Rightarrow> char \<Rightarrow> bool" where
  "space2 a b = (a = CHR 0xC2 \<and> (b = CHR 0x85 \<or> b = CHR 0xA0))"

definition space3 :: "char \<Rightarrow> char \<Rightarrow> char \<Rightarrow> bool" where
  "space3 a b c =
     ((a = CHR 0xE1 \<and> b = CHR 0x9A \<and> c = CHR 0x80)
      \<or> (a = CHR 0xE2 \<and> b = CHR 0x80
          \<and> c \<in> set [CHR 0x80, CHR 0x81, CHR 0x82, CHR 0x83, CHR 0x84, CHR 0x85, CHR 0x86,
                       CHR 0x87, CHR 0x88, CHR 0x89, CHR 0x8A, CHR 0xA8, CHR 0xA9, CHR 0xAF])
      \<or> (a = CHR 0xE2 \<and> b = CHR 0x81 \<and> c = CHR 0x9F)
      \<or> (a = CHR 0xE3 \<and> b = CHR 0x80 \<and> c = CHR 0x80))"

text \<open>
  The width in bytes of the white-space rune that a string starts with
  (\<open>utf8.DecodeRuneInString\<close> followed by \<open>unicode.IsSpace\<close>), \<open>0\<close> when the first rune is
  not white space; and the same for the rune a string ends with
  (\<open>utf8.DecodeLastRuneInString\<close>).
\<close>

fun space_prefix :: "string \<Rightarrow> nat" where
  "space_prefix [] = 0"
| "space_prefix [a] = (if ascii_space a then 1 else 0)"
| "space_prefix [a, b] = (if ascii_space a then 1 else if space2 a b then 2 else 0)"
| "space_prefix (a # b # c # s) =
     (if ascii_space a then 1 else if space2 a b then 2 else if space3 a b c then 3 else 0)"

definition space_suffix :: "string \<Rightarrow> nat" where
  "space_suffix s =
     (case rev s of
        [] \<Rightarrow> 0
      | [c] \<Rightarrow> (if ascii_space c then 1 else 0)
      | [c, b] \<Rightarrow> (if ascii_space c then 1 else if space2 b c then 2 else 0)
      | c # b # a # r \<Rightarrow>
          (if ascii_space c then 1 else if space2 b c then 2
           else if space3 a b c then 3 else 0))"

text \<open>
  \<open>strings.TrimSpace\<close>, that is \<open>TrimRightFunc(TrimLeftFunc(s, unicode.IsSpace),
  unicode.IsSpace)\<close>: white-space runes are taken off the front, then off the back.
\<close>

function TrimLeftSpace :: "string \<Rightarrow> string" where
  "TrimLeftSpace s =
     (if space_prefix s = 0 then s else TrimLeftSpace (drop (space_prefix s) s))"
  by pat_completeness auto
termination
  by (relation "measure length") (auto simp add: neq_Nil_conv [symmetric] intro!: diff_less)

function TrimRightSpace :: "string \<Rightarrow> string" where
  "TrimRightSpace s =
     (if space_suffix s = 0 then s
      else TrimRightSpace (take (length s - space_suffix s) s))"
  by pat_completeness auto
termination
proof (relation "measure length")
  fix s :: string
  assume "space_suffix s \<noteq> 0"
  then have "s \<noteq> []" and "0 < space_suffix s"
    by (auto simp add: space_suffix_def)
  then show "(take (length s - space_suffix s) s, s) \<in> measure length"
    by simp
qed simp

declare TrimLeftSpace.simps [simp del]
declare TrimRightSpace.simps [simp del]

definition TrimSpace :: "string \<Rightarrow> string" where
  "TrimSpace s = TrimRightSpace (TrimLeftSpace s)"

text \<open>
  \<open>strings.Fields\<close>: the maximal runs of bytes between white-space runes, in order. The
  scan is written byte by byte; it meets every white-space rune, because no encoding of one
  starts with a continuation byte, so none starts inside another rune. \<open>cur\<close> is the field
  being read.
\<close>

function fields_from :: "string \<Rightarrow> string \<Rightarrow> string list" where
  "fields_from cur [] = (if cur = [] then [] else [cur])"
| "fields_from cur (c # cs) =
     (if space_prefix (c # cs) = 0 then fields_from (cur @ [c]) cs
      else (if cur = [] then [] else [cur])
           @ fields_from [] (drop (space_prefix (c # cs)) (c # cs)))"
  by pat_completeness auto
termination
  by (relation "measure (\<lambda>(cur, s). length s)") auto

definition Fields :: "string \<Rightarrow> string list" where
  "Fields s = fields_from [] s"

section \<open>Paths: \<open>path/filepath\<close> on a Unix host\<close>

text \<open>
  The separator is \<open>/\<close>, there are no volume names, and \<open>filepath.FromSlash\<close> is the
  identity.
\<close>

definition is_sep :: "char \<Rightarrow> bool" where
  "is_sep c = (c = CHR ''/'')"

text \<open>The path elements between separators, empty elements included.\<close>

fun split_sep :: "string \<Rightarrow> string list" where
  "split_sep [] = [[]]"
| "split_sep (c # cs) =
     (if is_sep c then [] # split_sep cs
      else (case split_sep cs of [] \<Rightarrow> [[c]] | e # es \<Rightarrow> (c # e) # es))"

text \<open>
  \<open>filepath.Base\<close>: the last element of the path, trailing separators removed first;
  \<open>.\<close> for the empty path and \<open>/\<close> for a path of separators only.
\<close>

definition Base :: "string \<Rightarrow> string" where
  "Base path =
     (if path = [] then ''.''
      else (let stripped = rev (dropWhile is_sep (rev path));
                last_elem = rev (takeWhile (\<lambda>c. \<not> is_sep c) (rev stripped))
            in if last_elem = [] then ''/'' else last_elem))"

text \<open>
  \<open>filepath.Clean\<close>, element by element. \<open>clean_elems rooted out es\<close> processes the
  elements \<open>es\<close> left to right; \<open>out\<close> holds the elements kept so far, the last one first.
  An empty element and \<open>.\<close> are dropped; \<open>..\<close> removes the last kept element when
  there is one that is not itself \<open>..\<close>, is dropped at the root of a rooted path, and is
  kept otherwise.
\<close>

fun clean_elems :: "bool \<Rightarrow> string list \<Rightarrow> string list \<Rightarrow> string list" where
  "clean_elems rooted out [] = rev out"
| "clean_elems rooted out (e # es) =
     (if e = [] \<or> e = ''.'' then clean_elems rooted out es
      else if e = ''..'' then
        (case out of
           [] \<Rightarrow> (if rooted then clean_elems rooted [] es
                  else clean_elems rooted [''..''] es)
         | kept # below \<Rightarrow>
             (if kept = ''..'' then clean_elems rooted (''..'' # out) es
              else clean_elems rooted below es))
      else clean_elems rooted (e # out) es)"

fun join_sep :: "string list \<Rightarrow> string" where
  "join_sep [] = []"
| "join_sep [e] = e"
| "join_sep (e # es) = e @ ''/'' @ join_sep es"

definition Clean :: "string \<Rightarrow> string" where
  "Clean path =
     (if path = [] then ''.''
      else (let rooted = is_sep (hd path);
                body = join_sep (clean_elems rooted [] (split_sep path))
            in if rooted then ''/'' @ body
               else if body = [] then ''.'' else body))"

text \<open>
  \<open>filepath.Join\<close>: the elements from the first non-empty one on, joined by the
  separator and cleaned; the empty string when every element is empty.
\<close>

fun Join :: "string list \<Rightarrow> string" where
  "Join [] = []"
| "Join (e # es) = (if e = [] then Join es else Clean (join_sep (e # es)))"

definition FromSlash :: "string \<Rightarrow> string" where
  "FromSlash path = path"

section \<open>The file system seen by the control plane\<close>

text \<open>
  What \<open>os.Stat\<close>, \<open>os.ReadDir\<close> and \<open>os.ReadFile\<close> answer at a path: nothing there,
  a stat error other than absence, a regular file with the outcome of reading it, or a
  directory with the outcome of listing it (the entries with what lies at each).
\<close>

datatype fs_node =
    FsNotExist
  | FsStatError
  | FsFile "string option"
  | FsDir "(string \<times> fs_node) list option"

type_synonym file_system = "string \<Rightarrow> fs_node"

datatype 'a http_result =
    Ok 'a
  | Error400 string
  | Error500 string
  | Panic

section \<open>The filesystem walker (\<open>pkg/filesystem/traverse.go\<close>)\<close>

datatype Node = Node (Name: string) (Type: string) (Children: "Node list")

definition skippedDirs :: "string list" where
  "skippedDirs =
     [''node_modules'', ''__pycache__'', ''.mypy_cache'', ''.pytest_cache'', ''.git'',
      ''.next'', ''dist'', ''build'', ''.venv'', ''venv'', ''.env'', ''.codepanda'']"

definition skipDirectory :: "unicode_lower \<Rightarrow> string \<Rightarrow> bool" where
  "skipDirectory unicodeLower name = (ToLower unicodeLower name \<in> set skippedDirs)"

datatype walk_error = StatFailed | ReadDirFailed

text \<open>
  \<open>BuildFileTree root\<close>, with what lies at \<open>root\<close> as last argument (the first is the
  lowering of non-ASCII names, see \<^const>\<open>ToLower\<close>). The result is
  the error, or the node pointer, \<open>None\<close> being Go's \<open>nil\<close>. A child that fails or is
  skipped is left out of \<open>Children\<close>.
\<close>

fun BuildFileTree :: "unicode_lower \<Rightarrow> string \<Rightarrow> fs_node \<Rightarrow> walk_error + Node option" where
  "BuildFileTree ul root FsNotExist = Inl StatFailed"
| "BuildFileTree ul root FsStatError = Inl StatFailed"
| "BuildFileTree ul root (FsFile content) = Inr (Some (Node (Base root) ''file'' []))"
| "BuildFileTree ul root (FsDir listing) =
     (if skipDirectory ul (Base root) then Inr None
      else (case listing of
              None \<Rightarrow> Inl ReadDirFailed
            | Some entries \<Rightarrow>
                Inr (Some (Node (Base root) ''folder''
                  (concat (map (\<lambda>(name, child).
                     (case BuildFileTree ul (Join [root, name]) child of
                        Inl err \<Rightarrow> []
                      | Inr None \<Rightarrow> []
                      | Inr (Some n) \<Rightarrow> [n])) entries))))))"

section \<open>The control plane (\<open>pkg/api/server.go\<close>): file tree\<close>

datatype FileNode = FileNode (fn_Name: string) (fn_Type: string) (fn_Children: "FileNode list")

fun convertFsNode :: "Node \<Rightarrow> FileNode" where
  "convertFsNode (Node name ty children) = FileNode name ty (map convertFsNode children)"

definition getProjectPath :: "string \<Rightarrow> string \<Rightarrow> string" where
  "getProjectPath workspacePath projectID = Join [workspacePath, projectID]"

text \<open>
  \<open>handleGetFileTree\<close>. After the error check the handler reads \<open>tree.Name\<close> with no
  nil check: a nil tree is a nil-pointer dereference, the result \<^const>\<open>Panic\<close>.
\<close>

definition handleGetFileTree ::
  "unicode_lower \<Rightarrow> string \<Rightarrow> file_system \<Rightarrow> string \<Rightarrow> FileNode http_result" where
  "handleGetFileTree ul workspacePath fs projectID =
     (if projectID = [] then Error400 ''project ID is required''
      else (let projectPath = getProjectPath workspacePath projectID in
            case BuildFileTree ul projectPath (fs projectPath) of
              Inl err \<Rightarrow> Error500 ''Failed to build file tree''
            | Inr None \<Rightarrow> Panic
            | Inr (Some tree) \<Rightarrow>
                Ok (FileNode (Name tree) (Type tree) (map convertFsNode (Children tree)))))"

section \<open>The control plane (\<open>pkg/api/server.go\<close>): file content\<close>

text \<open>
  \<open>filepath.Ext\<close>: the suffix of the last path element that starts at its final dot,
  empty when that element has no dot.
\<close>

definition Ext :: "string \<Rightarrow> string" where
  "Ext path =
     (let last_elem = rev (takeWhile (\<lambda>c. \<not> is_sep c) (rev path)) in
      if CHR ''.'' \<in> set last_elem
      then CHR ''.'' # rev (takeWhile (\<lambda>c. c \<noteq> CHR ''.'') (rev last_elem))
      else [])"

text \<open>\<open>base64.StdEncoding.EncodeToString\<close>: three bytes give four digits, padded with \<open>=\<close>.\<close>

definition b64_digit :: "nat \<Rightarrow> char" where
  "b64_digit n =
     ''ABCDEFGHIJKLMNOPQRSTUVWXYZabcdefghijklmnopqrstuvwxyz0123456789+/'' ! (n mod 64)"

fun base64_encode :: "string \<Rightarrow> string" where
  "base64_encode [] = []"
| "base64_encode [a] =
     (let x = (of_char a :: nat)
      in [b64_digit (x div 4), b64_digit ((x mod 4) * 16), CHR ''='', CHR ''=''])"
| "base64_encode [a, b] =
     (let x = (of_char a :: nat); y = (of_char b :: nat)
      in [b64_digit (x div 4), b64_digit ((x mod 4) * 16 + y div 16),
          b64_digit ((y mod 16) * 4), CHR ''=''])"
| "base64_encode (a # b # c # rest) =
     (let x = (of_char a :: nat); y = (of_char b :: nat); z = (of_char c :: nat)
      in [b64_digit (x div 4), b64_digit ((x mod 4) * 16 + y div 16),
          b64_digit ((y mod 16) * 4 + z div 64), b64_digit (z mod 64)]
         @ base64_encode rest)"

record GetFileContentResponse =
  Content :: string
  MimeType :: string

text \<open>
  \<open>handleGetFileContent\<close>. The two functions of Go's library that give a MIME type are
  parameters: \<open>DetectContentType\<close> (\<open>net/http\<close>, from the content) and \<open>TypeByExtension\<close>
  (\<open>mime\<close>, from the extension).
\<close>

definition handleGetFileContent ::
  "string \<Rightarrow> file_system \<Rightarrow> (string \<Rightarrow> string) \<Rightarrow> (string \<Rightarrow> string) \<Rightarrow> string \<Rightarrow> string
     \<Rightarrow> GetFileContentResponse http_result" where
  "handleGetFileContent workspacePath fs DetectContentType TypeByExtension projectID inputPath =
     (if projectID = [] \<or> inputPath = []
      then Error400 ''project ID and file path are required''
      else (let projectPath = getProjectPath workspacePath projectID;
                filePath = Clean (FromSlash inputPath);
                fullPath = Join [projectPath, filePath]
            in if \<not> HasPrefix fullPath projectPath
               then Error400
                 ''invalid file path: attempting to access file outside project directory''
               else (case fs fullPath of
                       FsNotExist \<Rightarrow> Error400 (''file not found: '' @ filePath)
                     | FsStatError \<Rightarrow> Error500 ''failed to access file''
                     | FsDir listing \<Rightarrow>
                         Error400 (''path is a directory, not a file: '' @ filePath)
                     | FsFile None \<Rightarrow> Error500 ''failed to read file''
                     | FsFile (Some content) \<Rightarrow>
                         (let sniffed = DetectContentType content;
                              mimeType =
                                (if sniffed = [] then TypeByExtension (Ext filePath)
                                 else sniffed)
                          in Ok \<lparr>Content = base64_encode content,
                                  MimeType = mimeType\<rparr>))))"

text \<open>
  A cleaned path lies in a directory when it is the directory or continues it after a
  separator.
\<close>

definition inside_dir :: "string \<Rightarrow> string \<Rightarrow> bool" where
  "inside_dir dir path =
     (path = dir \<or> HasPrefix path (if HasSuffix dir ''/'' then dir else dir @ ''/''))"

section \<open>The control plane (\<open>pkg/api/server.go\<close>): git history\<close>

record CommitFile =
  cf_Path :: string
  cf_Type :: string

record Commit =
  Hash :: string
  Message :: string
  Date :: string
  Files :: "CommitFile list"

text \<open>
  The body of the loop of \<open>parseGitLog\<close>: the commit parsed from one line, or \<open>None\<close>
  when the line is skipped (empty, or fewer than five pieces).
\<close>

definition parse_line :: "string \<Rightarrow> Commit option" where
  "parse_line line =
     (if line = [] then None
      else (let parts = SplitN line CHR '' '' 5 in
            if length parts < 5 then None
            else (let date = parts ! 0 @ '' '' @ parts ! 1 @ '' '' @ parts ! 2;
                      hash = parts ! 3;
                      remaining = parts ! 4;
                      idx = Index remaining '')'';
                      branchStart = Index remaining ''('';
                      message =
                        (if idx \<noteq> -1 \<and> branchStart \<noteq> -1 \<and> branchStart < idx
                         then TrimSpace (drop (nat (idx + 1)) remaining)
                         else remaining);
                      idx2 = LastIndex message '' ['';
                      message2 =
                        (if idx2 \<noteq> -1 then TrimSpace (take (nat idx2) message)
                         else message)
                  in Some \<lparr>Hash = hash, Message = message2, Date = date, Files = []\<rparr>)))"

definition parseGitLog :: "string \<Rightarrow> Commit list" where
  "parseGitLog output = List.map_filter parse_line (Split output CHR 0x0A)"

text \<open>
  The git subprocess: the working directory and the arguments give the combined output,
  or \<open>None\<close> when the command fails.
\<close>

type_synonym git_runner = "string \<Rightarrow> string list \<Rightarrow> string option"

definition execGitCommand :: "git_runner \<Rightarrow> string \<Rightarrow> string list \<Rightarrow> string option" where
  "execGitCommand git workingDir args = git workingDir args"

record GetCommitsRequest =
  gc_ProjectID :: string
  gc_Cursor :: string
  gc_Limit :: "64 word"

record GetCommitsResponse =
  Commits :: "Commit list"
  NextCursor :: string
  HasNextPage :: bool

text \<open>
  The cursor loop of \<open>handleGetCommits\<close>, run from index \<open>i\<close>: one past the index of
  the first commit whose hash is the cursor; \<open>startIndex\<close> keeps its initial \<open>0\<close> when
  no commit has it.
\<close>

fun cursor_start :: "string \<Rightarrow> Commit list \<Rightarrow> nat \<Rightarrow> nat" where
  "cursor_start cur [] i = 0"
| "cursor_start cur (c # cs) i =
     (if Hash c = cur then i + 1 else cursor_start cur cs (i + 1))"

text \<open>One line of \<open>git show --name-status\<close>: the changed file, or \<open>None\<close> when skipped.\<close>

definition parse_status_line :: "string \<Rightarrow> CommitFile option" where
  "parse_status_line file =
     (if file = [] then None
      else (let parts = Fields file in
            if length parts < 2 then None
            else (let status = parts ! 0;
                      path = parts ! 1;
                      fileType =
                        (if status = ''A'' then ''added''
                         else if status = ''M'' then ''modified''
                         else if status = ''D'' then ''deleted''
                         else ''modified'')
                  in Some \<lparr>cf_Path = path, cf_Type = fileType\<rparr>)))"

definition show_args :: "string \<Rightarrow> string list" where
  "show_args hash = [''show'', ''--name-status'', ''--pretty=format:'', hash]"

definition log_args :: "string list" where
  "log_args = [''--no-pager'', ''log'', ''--pretty=format:%ai %H %d %s [%an]'']"

text \<open>
  The loop over the page that adds the changed files to each commit; it stops with
  \<open>None\<close> at the first \<open>git show\<close> that fails.
\<close>

fun add_files :: "git_runner \<Rightarrow> string \<Rightarrow> Commit list \<Rightarrow> Commit list option" where
  "add_files git projectPath [] = Some []"
| "add_files git projectPath (c # cs) =
     (case execGitCommand git projectPath (show_args (Hash c)) of
        None \<Rightarrow> None
      | Some filesOutput \<Rightarrow>
          (let c' = c\<lparr>Files := Files c @
                      List.map_filter parse_status_line
                        (Split (TrimSpace filesOutput) CHR 0x0A)\<rparr>
           in case add_files git projectPath cs of
                None \<Rightarrow> None
              | Some cs' \<Rightarrow> Some (c' # cs')))"

text \<open>
  Go's \<open>int\<close> is a signed 64-bit integer: a sum is reduced into
  \<open>-2\<^sup>6\<^sup>3 .. 2\<^sup>6\<^sup>3 - 1\<close>.
\<close>

definition wrap_int64 :: "int \<Rightarrow> int" where
  "wrap_int64 x = (x + 2 ^ 63) mod 2 ^ 64 - 2 ^ 63"

text \<open>
  The second half of \<open>handleGetCommits\<close>, from \<open>endIndex\<close> on: the page of
  \<open>allCommits\<close> that starts at \<open>startIndex\<close>, with the changed files of its commits.
  The sum \<open>startIndex+limit\<close> wraps around, and slicing with an end before the start
  panics.
\<close>

definition commits_page ::
  "git_runner \<Rightarrow> string \<Rightarrow> Commit list \<Rightarrow> nat \<Rightarrow> int \<Rightarrow> GetCommitsResponse http_result"
  where
  "commits_page git projectPath allCommits startIndex limit =
     (let endIndex = min (wrap_int64 (int startIndex + limit)) (int (length allCommits));
          hasNextPage = (endIndex < int (length allCommits))
      in if startIndex < length allCommits \<and> endIndex < int startIndex then Panic
         else (let pageCommits =
                     (if startIndex < length allCommits
                      then take (nat endIndex - startIndex) (drop startIndex allCommits)
                      else [])
               in case add_files git projectPath pageCommits of
                    None \<Rightarrow> Error500 ''failed to get changed files''
                  | Some page \<Rightarrow>
                      Ok \<lparr>Commits = page,
                          NextCursor =
                            (if hasNextPage \<and> page \<noteq> [] then Hash (last page) else []),
                          HasNextPage = hasNextPage\<rparr>))"

text \<open>
  \<open>handleGetCommits\<close>: the repository check, the default limit, the git log, the cursor
  loop, then the page.
\<close>

definition handleGetCommits ::
  "string \<Rightarrow> file_system \<Rightarrow> git_runner \<Rightarrow> GetCommitsRequest \<Rightarrow> GetCommitsResponse http_result"
  where
  "handleGetCommits workspacePath fs git input =
     (let projectPath = getProjectPath workspacePath (gc_ProjectID input) in
      if fs (Join [projectPath, ''.git'']) = FsNotExist then Error400 ''not a git repository''
      else (let limit = (if sint (gc_Limit input) \<le> 0 then 20 else sint (gc_Limit input)) in
            case execGitCommand git projectPath log_args of
              None \<Rightarrow> Error500 ''failed to get git log''
            | Some output \<Rightarrow>
                (let allCommits = parseGitLog output;
                     startIndex =
                       (if gc_Cursor input \<noteq> [] then cursor_start (gc_Cursor input) allCommits 0
                        else 0)
                 in commits_page git projectPath allCommits startIndex limit)))"

text \<open>
  A client that pages through the history: it requests a page, and while the answer has
  a next page it requests again with the returned cursor, at most \<open>fuel\<close> times. The result
  is the list of the answers, \<open>None\<close> when a request fails or the fuel runs out.
\<close>

fun fetch_pages ::
  "nat \<Rightarrow> string \<Rightarrow> file_system \<Rightarrow> git_runner \<Rightarrow> string \<Rightarrow> 64 word \<Rightarrow> string
     \<Rightarrow> GetCommitsResponse list option" where
  "fetch_pages 0 workspacePath fs git projectID limit cursor = None"
| "fetch_pages (Suc fuel) workspacePath fs git projectID limit cursor =
     (case handleGetCommits workspacePath fs git
             \<lparr>gc_ProjectID = projectID, gc_Cursor = cursor, gc_Limit = limit\<rparr> of
        Ok resp \<Rightarrow>
          (if HasNextPage resp then
             (case fetch_pages fuel workspacePath fs git projectID limit (NextCursor resp) of
                None \<Rightarrow> None
              | Some rest \<Rightarrow> Some (resp # rest))
           else Some [resp])
      | _ \<Rightarrow> None)"

text \<open>
  The git log line for the format \<open>%ai %H %d %s [%an]\<close>: \<open>%ai\<close> is date, time and zone
  separated by spaces; \<open>%d\<close> is empty, or a space followed by the ref names in
  parentheses.
\<close>

definition git_log_line ::
  "string \<Rightarrow> string \<Rightarrow> string \<Rightarrow> string \<Rightarrow> string option \<Rightarrow> string \<Rightarrow> string \<Rightarrow> string" where
  "git_log_line date time zone hash refs subject author =
     date @ '' '' @ time @ '' '' @ zone @ '' '' @ hash @ '' ''
       @ (case refs of None \<Rightarrow> [] | Some names \<Rightarrow> '' ('' @ names @ '')'')
       @ '' '' @ subject @ '' ['' @ author @ '']''"

section \<open>The HTML script injector (\<open>pkg/utils/html\<close>)\<close>

text \<open>
  The document tree of \<open>golang.org/x/net/html\<close>: a node has a type, its data (the tag
  name of an element, the text of a text node), attributes and children. A pointer to a
  node of the document is the path from the root: the child indices on the way down.
\<close>

datatype node_type = ErrorNode | TextNode | DocumentNode | ElementNode | CommentNode | DoctypeNode

datatype html_node =
  HNode (ntype: node_type) (ndata: string) (nattr: "(string \<times> string) list")
        (kids: "html_node list")

record ScriptConfig =
  sc_Content :: string
  sc_Attributes :: "(string \<times> string) list"
  sc_InsertFirst :: bool

text \<open>
  The two searches of \<open>ensureHead\<close> (\<open>findHead\<close>, \<open>findHtml\<close>) assign the variable
  \<open>found\<close> at every element with the tag that the walk reaches; the walk does not enter
  such an element, and goes on with its siblings. \<open>here\<close> is the path of the node
  visited.
\<close>

fun find_tag :: "string \<Rightarrow> html_node \<Rightarrow> nat list \<Rightarrow> nat list option \<Rightarrow> nat list option"
  and find_tag_children ::
    "string \<Rightarrow> html_node list \<Rightarrow> nat list \<Rightarrow> nat \<Rightarrow> nat list option \<Rightarrow> nat list option"
  where
  "find_tag tag (HNode ty d a cs) here found =
     (if ty = ElementNode \<and> d = tag then Some here
      else find_tag_children tag cs here 0 found)"
| "find_tag_children tag [] here i found = found"
| "find_tag_children tag (c # cs) here i found =
     find_tag_children tag cs here (Suc i) (find_tag tag c (here @ [i]) found)"

fun node_at :: "nat list \<Rightarrow> html_node \<Rightarrow> html_node option" where
  "node_at [] n = Some n"
| "node_at (i # p) (HNode ty d a cs) = (if i < length cs then node_at p (cs ! i) else None)"

text \<open>The document with the node at a path replaced by its image under \<open>f\<close>.\<close>

fun update_at :: "nat list \<Rightarrow> (html_node \<Rightarrow> html_node) \<Rightarrow> html_node \<Rightarrow> html_node" where
  "update_at [] f n = f n"
| "update_at (i # p) f (HNode ty d a cs) =
     HNode ty d a (if i < length cs then cs[i := update_at p f (cs ! i)] else cs)"

definition insert_first_child :: "html_node \<Rightarrow> html_node \<Rightarrow> html_node" where
  "insert_first_child child n = HNode (ntype n) (ndata n) (nattr n) (child # kids n)"

definition append_child :: "html_node \<Rightarrow> html_node \<Rightarrow> html_node" where
  "append_child child n = HNode (ntype n) (ndata n) (nattr n) (kids n @ [child])"

datatype inject_error = ParseFailed | NoHtmlTag | RenderFailed

text \<open>
  \<open>ensureHead\<close>: the head found, or a new \<open>head\<close> element put before the first child
  of the \<open>html\<close> element found (as its only child when it has none). The result is the
  document and the path of the head.
\<close>

definition ensureHead :: "html_node \<Rightarrow> inject_error + (html_node \<times> nat list)" where
  "ensureHead doc =
     (case find_tag ''head'' doc [] None of
        Some head \<Rightarrow> Inr (doc, head)
      | None \<Rightarrow>
          (case find_tag ''html'' doc [] None of
             None \<Rightarrow> Inl NoHtmlTag
           | Some htmlNode \<Rightarrow>
               Inr (update_at htmlNode
                      (insert_first_child (HNode ElementNode ''head'' [] [])) doc,
                    htmlNode @ [0])))"

text \<open>The \<open>script\<close> element built for one configuration.\<close>

definition script_node :: "ScriptConfig \<Rightarrow> html_node" where
  "script_node script =
     HNode ElementNode ''script'' (sc_Attributes script)
       (if sc_Content script \<noteq> [] then [HNode TextNode (TrimSpace (sc_Content script)) [] []]
        else [])"

definition inject_script :: "nat list \<Rightarrow> html_node \<Rightarrow> ScriptConfig \<Rightarrow> html_node" where
  "inject_script head doc script =
     (if sc_InsertFirst script
      then update_at head (insert_first_child (script_node script)) doc
      else update_at head (append_child (script_node script)) doc)"

text \<open>
  The tree part of \<open>InjectIntoHTML\<close>: the head ensured, then the scripts injected in the
  order of their registration.
\<close>

definition inject_tree :: "ScriptConfig list \<Rightarrow> html_node \<Rightarrow> inject_error + html_node" where
  "inject_tree scripts doc =
     (case ensureHead doc of
        Inl err \<Rightarrow> Inl err
      | Inr (doc1, head) \<Rightarrow> Inr (foldl (inject_script head) doc1 scripts))"

text \<open>
  \<open>InjectIntoHTML\<close>, with the parser and the renderer of \<open>golang.org/x/net/html\<close> as
  parameters (\<open>None\<close> is their error).
\<close>

definition InjectIntoHTML ::
  "(string \<Rightarrow> html_node option) \<Rightarrow> (html_node \<Rightarrow> string option) \<Rightarrow> ScriptConfig list
     \<Rightarrow> string \<Rightarrow> inject_error + string" where
  "InjectIntoHTML parse render scripts content =
     (case parse content of
        None \<Rightarrow> Inl ParseFailed
      | Some doc \<Rightarrow>
          (case inject_tree scripts doc of
             Inl err \<Rightarrow> Inl err
           | Inr doc' \<Rightarrow>
               (case render doc' of
                  None \<Rightarrow> Inl RenderFailed
                | Some out \<Rightarrow> Inr out)))"

text \<open>The number of elements with a tag in a tree.\<close>

fun count_tag :: "string \<Rightarrow> html_node \<Rightarrow> nat" where
  "count_tag tag (HNode ty d a cs) =
     (if ty = ElementNode \<and> d = tag then 1 else 0) + sum_list (map (count_tag tag) cs)"

section \<open>The reverse proxy (\<open>pkg/proxy\<close>): static files and loading mode\<close>

text \<open>
  The environment of the static-file reader: the path of the running executable
  (\<open>os.Executable\<close> may fail) and what \<open>os.ReadFile\<close> returns at a path.
\<close>

record static_env =
  executable :: "string option"
  read_file :: "string \<Rightarrow> string option"

datatype server_state = Idle | Serving | Closed

record ProxyServer =
  server :: server_state
  appPort :: int
  isLoading :: bool
  cache :: "string \<rightharpoonup> string"

text \<open>\<open>filepath.Dir\<close>: the path without its last element, cleaned.\<close>

definition Dir :: "string \<Rightarrow> string" where
  "Dir path = Clean (rev (dropWhile (\<lambda>c. \<not> is_sep c) (rev path)))"

text \<open>
  \<open>readStaticFile\<close>: the cache first, then \<open><executable dir>/static/<name>\<close>, then
  \<open>static/<name>\<close>; what was read from disk is cached. \<open>None\<close> is the error return.
\<close>

definition readStaticFile ::
  "static_env \<Rightarrow> ProxyServer \<Rightarrow> string \<Rightarrow> string option \<times> ProxyServer" where
  "readStaticFile env p filename =
     (case cache p filename of
        Some content \<Rightarrow> (Some content, p)
      | None \<Rightarrow>
          (case executable env of
             None \<Rightarrow> (None, p)
           | Some exePath \<Rightarrow>
               (case read_file env (Join [Dir exePath, ''static'', filename]) of
                  Some content \<Rightarrow> (Some content, p\<lparr>cache := (cache p)(filename \<mapsto> content)\<rparr>)
                | None \<Rightarrow>
                    (case read_file env (Join [''static'', filename]) of
                       Some content \<Rightarrow>
                         (Some content, p\<lparr>cache := (cache p)(filename \<mapsto> content)\<rparr>)
                     | None \<Rightarrow> (None, p)))))"












text \<open>The page size in force: \<open>20\<close> when the requested limit is absent or not positive.\<close>

definition eff_limit :: "64 word \<Rightarrow> int" where
  "eff_limit limit = (if sint limit \<le> 0 then 20 else sint limit)"

text \<open>
  The commits that follow the cursor, in the words of the specification: the whole listing
  when no cursor is given, otherwise what comes after the commit whose hash is the cursor.
\<close>

definition after_cursor :: "string \<Rightarrow> Commit list \<Rightarrow> Commit list" where
  "after_cursor cursor cs =
     (if cursor = [] then cs else tl (dropWhile (\<lambda>c. Hash c \<noteq> cursor) cs))"

text \<open>A string has a \<open>(\<close> before its first \<open>)\<close>.\<close>

definition paren_pair :: "string \<Rightarrow> bool" where
  "paren_pair s = (Index s '')'' \<noteq> -1 \<and> Index s ''('' \<noteq> -1 \<and> Index s ''('' < Index s '')'')"

text \<open>The node at a path is an element with the tag.\<close>

definition tag_at :: "string \<Rightarrow> nat list \<Rightarrow> html_node \<Rightarrow> bool" where
  "tag_at tag p n = (\<exists>a cs. node_at p n = Some (HNode ElementNode tag a cs))"

text \<open>A node with further children put before its own.\<close>

definition prepend_kids :: "html_node list \<Rightarrow> html_node \<Rightarrow> html_node" where
  "prepend_kids xs n = HNode (ntype n) (ndata n) (nattr n) (xs @ kids n)"

section \<open>Processes and listeners outside the runner\<close>

text \<open>
  A child process answers a stop in one of four ways: it exits on the interrupt within
  the five seconds of grace; it exits on the kill within two more seconds; the kill
  itself fails; or the kill is sent and the process is still there two seconds later.
  The world holds the processes started and the proxy servers created so far, each under
  a number that stands for the pointer the Go code holds.
\<close>

datatype stop_response = ExitsOnInterrupt | ExitsOnKill | KillFails | SurvivesKill

record process =
  alive :: bool
  response :: stop_response
  port :: int

record world =
  procs :: "nat \<rightharpoonup> process"
  next_pid :: nat
  servers :: "nat \<rightharpoonup> ProxyServer"
  next_server :: nat

text \<open>
  What the environment decides during one operation of the orchestrator: whether
  \<open>node_modules\<close> is missing and the install succeeds, whether the ten-second deadline
  of \<open>StopProject\<close> expires, whether the proxy can listen, how starting the dev server
  ends, and the outcome of each readiness probe sent before the startup deadline.
\<close>

datatype spawn_outcome = StdoutPipeFails | StderrPipeFails | StartFails | Started stop_response

record run_env =
  statics :: static_env
  node_modules_missing :: bool
  install_succeeds :: bool
  stop_deadline_hit :: bool
  listen_ok :: bool
  spawn :: spawn_outcome
  probes :: "bool list"

section \<open>The process supervisor (\<open>pkg/runtime/supervisor.go\<close>)\<close>

text \<open>
  \<open>cmdMutex\<close> is a \<open>sync.Mutex\<close>, which is not reentrant: \<open>Lock\<close> on a mutex that is held
  blocks until it is released. In the operations below, which run in one thread, a
  \<open>Lock\<close> on the held mutex never returns: the result is \<open>None\<close>.
\<close>

record Supervisor =
  currentCmd :: "nat option"
  cmdMutex :: bool
  processOutput :: string

definition mutex_lock :: "Supervisor \<Rightarrow> Supervisor option" where
  "mutex_lock s = (if cmdMutex s then None else Some (s\<lparr>cmdMutex := True\<rparr>))"

definition mutex_unlock :: "Supervisor \<Rightarrow> Supervisor" where
  "mutex_unlock s = s\<lparr>cmdMutex := False\<rparr>"

definition process_exits :: "nat \<Rightarrow> world \<Rightarrow> world" where
  "process_exits pid w =
     (case procs w pid of
        None \<Rightarrow> w
      | Some pr \<Rightarrow> w\<lparr>procs := (procs w)(pid \<mapsto> pr\<lparr>alive := False\<rparr>)\<rparr>)"

text \<open>
  \<open>StopCurrentProcess\<close>. With a process: interrupt, wait, kill, wait; on success the
  process is gone and the state is cleared; when the kill fails or times out the call
  returns false and keeps \<open>currentCmd\<close>. Without one: clear and return false. The
  deferred \<open>Unlock\<close> runs on every return.
\<close>

definition StopCurrentProcess :: "world \<Rightarrow> Supervisor \<Rightarrow> (bool \<times> world \<times> Supervisor) option" where
  "StopCurrentProcess w s =
     (case mutex_lock s of
        None \<Rightarrow> None
      | Some s1 \<Rightarrow>
          (let cleared = mutex_unlock (s1\<lparr>currentCmd := None, processOutput := []\<rparr>) in
           case currentCmd s1 of
             None \<Rightarrow> Some (False, w, cleared)
           | Some pid \<Rightarrow>
               (case procs w pid of
                  None \<Rightarrow> Some (False, w, cleared)
                | Some pr \<Rightarrow>
                    (if \<not> alive pr then Some (True, w, cleared)
                     else (case response pr of
                             ExitsOnInterrupt \<Rightarrow> Some (True, process_exits pid w, cleared)
                           | ExitsOnKill \<Rightarrow> Some (True, process_exits pid w, cleared)
                           | KillFails \<Rightarrow> Some (False, w, mutex_unlock s1)
                           | SurvivesKill \<Rightarrow> Some (False, w, mutex_unlock s1))))))"

datatype start_error = StdoutPipeError | StderrPipeError | StartError

text \<open>
  The part of \<open>StartDevServer\<close> after the stop of an earlier child: the pipes, the start
  of \<open><pm> run dev --port <port>\<close>, and the new \<open>currentCmd\<close>.
\<close>

definition spawn_dev_server ::
  "run_env \<Rightarrow> int \<Rightarrow> world \<Rightarrow> Supervisor \<Rightarrow> (start_error + unit) \<times> world \<times> Supervisor" where
  "spawn_dev_server env p w s =
     (case spawn env of
        StdoutPipeFails \<Rightarrow> (Inl StdoutPipeError, w, mutex_unlock s)
      | StderrPipeFails \<Rightarrow> (Inl StderrPipeError, w, mutex_unlock s)
      | StartFails \<Rightarrow> (Inl StartError, w, mutex_unlock s)
      | Started r \<Rightarrow>
          (Inr (),
           w\<lparr>procs := (procs w)(next_pid w \<mapsto> \<lparr>alive = True, response = r, port = p\<rparr>),
             next_pid := Suc (next_pid w)\<rparr>,
           mutex_unlock (s\<lparr>currentCmd := Some (next_pid w)\<rparr>)))"

text \<open>
  \<open>StartDevServer\<close>: it takes the mutex, and when a child exists it calls
  \<open>StopCurrentProcess\<close> (which takes the mutex itself) before it goes on.
\<close>

definition StartDevServer ::
  "run_env \<Rightarrow> int \<Rightarrow> world \<Rightarrow> Supervisor \<Rightarrow> ((start_error + unit) \<times> world \<times> Supervisor) option"
  where
  "StartDevServer env p w s =
     (case mutex_lock s of
        None \<Rightarrow> None
      | Some s1 \<Rightarrow>
          (if currentCmd s1 \<noteq> None then
             (case StopCurrentProcess w s1 of
                None \<Rightarrow> None
              | Some (stopped, w2, s2) \<Rightarrow> Some (spawn_dev_server env p w2 s2))
           else Some (spawn_dev_server env p w s1)))"

section \<open>The proxy server's life cycle (\<open>pkg/proxy\<close>)\<close>

definition preloadStaticFiles :: "static_env \<Rightarrow> ProxyServer \<Rightarrow> ProxyServer" where
  "preloadStaticFiles senv p =
     foldl (\<lambda>q filename.
              case readStaticFile senv q filename of
                (None, q') \<Rightarrow> q'
              | (Some content, q') \<Rightarrow> q'\<lparr>cache := (cache q')(filename \<mapsto> content)\<rparr>)
       p [''loading.html'', ''heartbeat.js'', ''navigation.js'']"

definition NewProxyServer :: "static_env \<Rightarrow> int \<Rightarrow> ProxyServer" where
  "NewProxyServer senv targetPort =
     preloadStaticFiles senv
       \<lparr>server = Idle, appPort = targetPort, isLoading = False, cache = Map.empty\<rparr>"

definition SetLoadingMode :: "bool \<Rightarrow> ProxyServer \<Rightarrow> ProxyServer" where
  "SetLoadingMode loading p = p\<lparr>isLoading := loading\<rparr>"

text \<open>
  \<open>Start\<close> is \<open>ListenAndServe\<close>: it serves when it can listen, and does nothing on a
  server that was shut down. \<open>Stop\<close> shuts the server down, by force if need be.
\<close>

definition proxy_Start :: "bool \<Rightarrow> ProxyServer \<Rightarrow> ProxyServer" where
  "proxy_Start can_listen p =
     (if server p = Idle \<and> can_listen then p\<lparr>server := Serving\<rparr> else p)"

definition proxy_Stop :: "ProxyServer \<Rightarrow> ProxyServer" where
  "proxy_Stop p = p\<lparr>server := Closed\<rparr>"

definition on_server :: "nat \<Rightarrow> (ProxyServer \<Rightarrow> ProxyServer) \<Rightarrow> world \<Rightarrow> world" where
  "on_server sid f w =
     (case servers w sid of
        None \<Rightarrow> w
      | Some p \<Rightarrow> w\<lparr>servers := (servers w)(sid \<mapsto> f p)\<rparr>)"

section \<open>The project orchestrator (\<open>pkg/project\<close>)\<close>

record Orchestrator =
  supervisor :: Supervisor
  proxyServer :: "nat option"
  isRestarting :: bool
  o_appPort :: int

definition setRestarting :: "bool \<Rightarrow> Orchestrator \<Rightarrow> bool \<times> Orchestrator" where
  "setRestarting v orch =
     (if v \<and> isRestarting orch then (False, orch) else (True, orch\<lparr>isRestarting := v\<rparr>))"

text \<open>
  \<open>waitForAppReady\<close>: one probe per tick until one is answered; the list holds the
  outcomes of the probes that fit before the deadline, and running out of them is the
  timeout (\<open>False\<close>).
\<close>

fun waitForAppReady :: "bool list \<Rightarrow> bool" where
  "waitForAppReady [] = False"
| "waitForAppReady (answered # rest) = (if answered then True else waitForAppReady rest)"

text \<open>
  \<open>StopProject\<close>: the proxy handle is taken out of the orchestrator; the background task
  stops that proxy and the child. When the deadline expires first, both stops are
  issued once more and the result is false.
\<close>

definition stop_proxy_opt :: "nat option \<Rightarrow> world \<Rightarrow> world" where
  "stop_proxy_opt handle w = (case handle of None \<Rightarrow> w | Some sid \<Rightarrow> on_server sid proxy_Stop w)"

definition StopProject ::
  "run_env \<Rightarrow> world \<Rightarrow> Orchestrator \<Rightarrow> (bool \<times> world \<times> Orchestrator) option" where
  "StopProject env w orch =
     (let handle = proxyServer orch;
          o1 = orch\<lparr>proxyServer := None\<rparr>;
          w1 = stop_proxy_opt handle w
      in case StopCurrentProcess w1 (supervisor o1) of
           None \<Rightarrow> None
         | Some (success, w2, sup2) \<Rightarrow>
             (if \<not> stop_deadline_hit env then Some (success, w2, o1\<lparr>supervisor := sup2\<rparr>)
              else (case StopCurrentProcess (stop_proxy_opt handle w2) sup2 of
                      None \<Rightarrow> None
                    | Some (again, w3, sup3) \<Rightarrow> Some (False, w3, o1\<lparr>supervisor := sup3\<rparr>))))"

datatype restart_error =
    ReadinessTimeout
  | InstallFailed
  | DevServerFailed start_error
  | AppFailedToStart

text \<open>
  \<open>RestartProject\<close> after \<open>setRestarting(true)\<close> has succeeded, up to its return; the
  deferred \<open>setRestarting(false)\<close> is applied by \<open>RestartProject\<close> below.
\<close>

definition restart_body ::
  "run_env \<Rightarrow> int \<Rightarrow> int \<Rightarrow> world \<Rightarrow> Orchestrator
     \<Rightarrow> ((restart_error + unit) \<times> world \<times> Orchestrator) option" where
  "restart_body env listenPort targetPort w orch =
     (case StopProject env w orch of
        None \<Rightarrow> None
      | Some (stopped, w1, o1) \<Rightarrow>
          (let o2 = o1\<lparr>o_appPort := targetPort\<rparr> in
           if node_modules_missing env \<and> \<not> install_succeeds env
           then Some (Inl InstallFailed, w1, o2)
           else (let sid = next_server w1;
                     created = SetLoadingMode True (NewProxyServer (statics env) targetPort);
                     o3 = o2\<lparr>proxyServer := Some sid\<rparr>;
                     w2 = w1\<lparr>servers := (servers w1)(sid \<mapsto> proxy_Start (listen_ok env) created),
                             next_server := Suc sid\<rparr>
                 in case StartDevServer env targetPort w2 (supervisor o3) of
                      None \<Rightarrow> None
                    | Some (Inl err, w3, sup3) \<Rightarrow>
                        Some (Inl (DevServerFailed err), on_server sid proxy_Stop w3,
                              o3\<lparr>supervisor := sup3\<rparr>)
                    | Some (Inr u, w3, sup3) \<Rightarrow>
                        (if \<not> waitForAppReady (probes env) then
                           (case StopCurrentProcess (on_server sid proxy_Stop w3) sup3 of
                              None \<Rightarrow> None
                            | Some (gone, w4, sup4) \<Rightarrow>
                                Some (Inl AppFailedToStart, w4, o3\<lparr>supervisor := sup4\<rparr>))
                         else Some (Inr (), on_server sid (SetLoadingMode False) w3,
                                    o3\<lparr>supervisor := sup3\<rparr>)))))"

definition RestartProject ::
  "run_env \<Rightarrow> int \<Rightarrow> int \<Rightarrow> world \<Rightarrow> Orchestrator
     \<Rightarrow> ((restart_error + unit) \<times> world \<times> Orchestrator) option" where
  "RestartProject env listenPort targetPort w orch =
     (case setRestarting True orch of
        (False, o') \<Rightarrow>
          Some (if waitForAppReady (probes env) then Inr () else Inl ReadinessTimeout, w, o')
      | (True, o') \<Rightarrow>
          (case restart_body env listenPort targetPort w o' of
             None \<Rightarrow> None
           | Some (result, w', o'') \<Rightarrow> Some (result, w', snd (setRestarting False o''))))"

text \<open>Numbers not yet given out stand for no process and no server.\<close>

definition wf_world :: "world \<Rightarrow> bool" where
  "wf_world w =
     ((\<forall>pid. next_pid w \<le> pid \<longrightarrow> procs w pid = None)
      \<and> (\<forall>sid. next_server w \<le> sid \<longrightarrow> servers w sid = None))"

text \<open>
  Two worlds hold processes and servers under the same numbers (their states may
  differ).
\<close>

definition same_support :: "world \<Rightarrow> world \<Rightarrow> bool" where
  "same_support w w' =
     (next_pid w' = next_pid w \<and> next_server w' = next_server w
      \<and> (\<forall>pid. procs w' pid = None \<longleftrightarrow> procs w pid = None)
      \<and> (\<forall>sid. servers w' sid = None \<longleftrightarrow> servers w sid = None))"


section \<open>Properties\<close>

subsection \<open>Facts about the string functions\<close>

lemmas trim_eval =
  TrimSpace_def TrimLeftSpace.simps TrimRightSpace.simps space_suffix_def
  ascii_space_def space2_def space3_def


lemma Index_ge: "- 1 \<le> Index s sub"
  by (induction s) (auto simp: Let_def)

lemma Index_single_absent: "Index s [c] = - 1 \<longleftrightarrow> c \<notin> set s"
proof (induction s)
  case Nil
  then show ?case by simp
next
  case (Cons a s)
  have "- 1 \<le> Index s [c]" by (rule Index_ge)
  with Cons show ?case by (auto simp: Let_def)
qed


lemma LastIndex_ge: "- 1 \<le> LastIndex s sub"
  by (induction s) (auto simp: Let_def)








subsection \<open>File tree of a project whose directory name is pruned\<close>

text \<open>
  C10. When the project directory exists, is a directory, and its base name, lowercased
  as \<open>strings.ToLower\<close> does, is in the skip set, \<open>BuildFileTree\<close> returns a nil node
  with a nil error, and the \<open>/files/tree\<close> handler, which dereferences the node without a
  check, panics: the request yields neither a tree nor a 400 or 500 answer of the handler.
  This holds whatever the lowering of non-ASCII names is, so also for a name such as
  \<open>D\<close>\<open>U+0130\<close>\<open>ST\<close>, which Go lowers to \<open>dist\<close>.
\<close>

theorem C10_skipped_root_panics:
  assumes "projectID \<noteq> []"
    and "fs (getProjectPath workspacePath projectID) = FsDir listing"
    and "skipDirectory unicodeLower (Base (getProjectPath workspacePath projectID))"
  shows "BuildFileTree unicodeLower (getProjectPath workspacePath projectID)
           (fs (getProjectPath workspacePath projectID)) = Inr None
         \<and> handleGetFileTree unicodeLower workspacePath fs projectID = Panic"
  using assms by (simp add: handleGetFileTree_def)

theorem C10_skipped_root_panics_witness:
  "handleGetFileTree (\<lambda>s. s) ''/workspace''
     (\<lambda>p. if p = ''/workspace/Dist''
           then FsDir (Some [(''index.html'', FsFile (Some ''<html></html>''))])
           else FsNotExist) ''Dist'' = Panic
   \<and> handleGetFileTree
       (\<lambda>s. if s = [CHR ''D'', CHR 0xC4, CHR 0xB0, CHR ''S'', CHR ''T''] then ''dist'' else s)
       ''/workspace''
       (\<lambda>p. if p = ''/workspace/'' @ [CHR ''D'', CHR 0xC4, CHR 0xB0, CHR ''S'', CHR ''T'']
             then FsDir (Some []) else FsNotExist)
       [CHR ''D'', CHR 0xC4, CHR 0xB0, CHR ''S'', CHR ''T''] = Panic"
proof -
  let ?fs = "\<lambda>p. if p = ''/workspace/Dist''
           then FsDir (Some [(''index.html'', FsFile (Some ''<html></html>''))])
           else FsNotExist"
  have path: "getProjectPath ''/workspace'' ''Dist'' = ''/workspace/Dist''"
    by (simp add: getProjectPath_def Clean_def is_sep_def)
  have a: "''Dist'' \<noteq> []" by simp
  have b: "?fs (getProjectPath ''/workspace'' ''Dist'')
             = FsDir (Some [(''index.html'', FsFile (Some ''<html></html>''))])"
    by (simp add: path)
  have c: "skipDirectory (\<lambda>s. s) (Base (getProjectPath ''/workspace'' ''Dist''))"
    by (simp add: path Base_def is_sep_def skipDirectory_def skippedDirs_def ToLower_def
        is_ascii_def lower_char_def)
  let ?n = "[CHR ''D'', CHR 0xC4, CHR 0xB0, CHR ''S'', CHR ''T'']"
  let ?ul = "\<lambda>s. if s = ?n then ''dist'' else s"
  let ?fs2 = "\<lambda>p. if p = ''/workspace/'' @ ?n then FsDir (Some []) else FsNotExist"
  have path2: "getProjectPath ''/workspace'' ?n = ''/workspace/'' @ ?n"
    by (simp add: getProjectPath_def Clean_def is_sep_def)
  have a2: "?n \<noteq> []" by simp
  have b2: "?fs2 (getProjectPath ''/workspace'' ?n) = FsDir (Some [])"
    by (simp add: path2)
  have c2: "skipDirectory ?ul (Base (getProjectPath ''/workspace'' ?n))"
    by (simp add: path2 Base_def is_sep_def skipDirectory_def skippedDirs_def ToLower_def
        is_ascii_def)
  from C10_skipped_root_panics [where projectID = "''Dist''" and fs = ?fs
      and workspacePath = "''/workspace''" and unicodeLower = "\<lambda>s. s", OF a b c]
    C10_skipped_root_panics [where projectID = ?n and fs = ?fs2
      and workspacePath = "''/workspace''" and unicodeLower = ?ul, OF a2 b2 c2]
  show ?thesis by simp
qed

subsection \<open>The proxy in loading mode\<close>




subsection \<open>Commit pagination\<close>

lemma cursor_start_found:
  "cur \<in> set (map Hash cs) \<Longrightarrow>
     cursor_start cur cs i = i + 1 + length (takeWhile (\<lambda>c. Hash c \<noteq> cur) cs)"
  by (induction cs arbitrary: i) auto

lemma takeWhile_hash:
  "distinct (map Hash cs) \<Longrightarrow> j < length cs \<Longrightarrow>
     takeWhile (\<lambda>c. Hash c \<noteq> Hash (cs ! j)) cs = take j cs"
proof (induction cs arbitrary: j)
  case Nil
  then show ?case by simp
next
  case (Cons a cs)
  show ?case
  proof (cases j)
    case 0
    then show ?thesis by simp
  next
    case (Suc m)
    then have m: "m < length cs" using Cons.prems by simp
    then have "Hash (cs ! m) \<in> Hash ` set cs" by auto
    then have "Hash a \<noteq> Hash (cs ! m)" using Cons.prems(1) by auto
    then show ?thesis using Suc Cons.IH [of m] Cons.prems m by simp
  qed
qed

lemma cursor_start_nth:
  assumes "distinct (map Hash cs)" and "j < length cs"
  shows "cursor_start (Hash (cs ! j)) cs 0 = Suc j"
proof -
  have mem: "Hash (cs ! j) \<in> set (map Hash cs)" using assms(2) by auto
  show ?thesis
    using cursor_start_found [OF mem, of 0] takeWhile_hash [OF assms] assms(2) by simp
qed

lemma add_files_append:
  "add_files git p (xs @ ys) =
     (case add_files git p xs of
        None \<Rightarrow> None
      | Some xs' \<Rightarrow> (case add_files git p ys of None \<Rightarrow> None | Some ys' \<Rightarrow> Some (xs' @ ys')))"
  by (induction xs) (auto simp: Let_def split: option.splits)

lemma add_files_length: "add_files git p cs = Some full \<Longrightarrow> length full = length cs"
  by (induction cs arbitrary: full) (auto simp: Let_def split: option.splits)

lemma add_files_Hash: "add_files git p cs = Some full \<Longrightarrow> map Hash full = map Hash cs"
  by (induction cs arbitrary: full) (auto simp: Let_def split: option.splits)

lemma add_files_take_drop:
  assumes "add_files git p cs = Some full"
  shows "add_files git p (take m cs) = Some (take m full)"
    and "add_files git p (drop m cs) = Some (drop m full)"
proof -
  have "add_files git p (take m cs @ drop m cs) = Some full" using assms by simp
  from this [unfolded add_files_append] obtain a b where a: "add_files git p (take m cs) = Some a"
    and b: "add_files git p (drop m cs) = Some b" and f: "full = a @ b"
    by (auto split: option.splits)
  have "length a = length (take m cs)" using a by (rule add_files_length)
  then have "length a = min m (length cs)" by simp
  moreover have "length full = length cs" using assms by (rule add_files_length)
  ultimately have "take m full = a" "drop m full = b" using f by (auto simp: min_def)
  then show "add_files git p (take m cs) = Some (take m full)"
    and "add_files git p (drop m cs) = Some (drop m full)" using a b by simp_all
qed

lemma wrap_int64_id: "- (2 ^ 63) \<le> x \<Longrightarrow> x < 2 ^ 63 \<Longrightarrow> wrap_int64 x = x"
  by (simp add: wrap_int64_def)

lemma commits_page_eq:
  assumes k: "k \<le> length cs"
    and Lpos: "0 < L"
    and noov: "int k + L < 2 ^ 63"
    and files: "add_files git p cs = Some full"
  shows "commits_page git p cs k L =
     Ok \<lparr>Commits = take (nat L) (drop k full),
         NextCursor = (if int k + L < int (length cs)
                       then Hash (full ! (k + nat L - 1)) else []),
         HasNextPage = (int k + L < int (length cs))\<rparr>"
proof -
  have len: "length full = length cs" using files by (rule add_files_length)
  have wrap: "wrap_int64 (int k + L) = int k + L"
    using noov Lpos by (intro wrap_int64_id) auto
  let ?e = "min (int k + L) (int (length cs))"
  have e_ge: "int k \<le> ?e" using Lpos k by simp
  have page_eq: "(if k < length cs then take (nat ?e - k) (drop k cs) else [])
                  = take (nat L) (drop k cs)"
  proof (cases "k < length cs")
    case True
    have "take (nat ?e - k) (drop k cs) = take (nat L) (drop k cs)"
    proof (cases "int k + L \<le> int (length cs)")
      case True
      then have "nat ?e - k = nat L" using Lpos by (simp add: min_def)
      then show ?thesis by simp
    next
      case False
      then have "nat ?e - k = length cs - k" by (simp add: min_def)
      moreover have "length cs - k \<le> nat L" using False by arith
      ultimately show ?thesis by simp
    qed
    then show ?thesis using True by simp
  next
    case False
    then show ?thesis by simp
  qed
  have pf: "add_files git p (take (nat L) (drop k cs)) = Some (take (nat L) (drop k full))"
    using add_files_take_drop(1) [OF add_files_take_drop(2) [OF files]] .
  have hn: "(?e < int (length cs)) = (int k + L < int (length cs))"
    by (simp add: min_def)
  have nopanic: "\<not> (k < length cs \<and> ?e < int k)" using e_ge by linarith
  show ?thesis
  proof (cases "int k + L < int (length cs)")
    case True
    then have l: "length (take (nat L) (drop k full)) = nat L" using Lpos len by simp
    then have ne: "take (nat L) (drop k full) \<noteq> []" using Lpos by auto
    have "last (take (nat L) (drop k full)) = take (nat L) (drop k full) ! (nat L - 1)"
      using ne l by (simp add: last_conv_nth)
    also have "\<dots> = full ! (k + (nat L - 1))" using True Lpos len by simp
    finally have la: "Hash (last (take (nat L) (drop k full))) = Hash (full ! (k + nat L - 1))"
      using Lpos by (simp add: nat_diff_distrib')
    show ?thesis
      unfolding commits_page_def Let_def wrap page_eq pf hn
      using nopanic True ne la by (simp add: wrap hn)
  next
    case False
    show ?thesis
      unfolding commits_page_def Let_def wrap page_eq pf hn
      using nopanic False by (simp add: wrap hn)
  qed
qed

lemma eff_limit_pos: "0 < eff_limit limit"
  by (simp add: eff_limit_def)

lemma handler_page:
  assumes repo: "fs (Join [getProjectPath ws pid, ''.git'']) \<noteq> FsNotExist"
    and log: "git (getProjectPath ws pid) log_args = Some output"
    and start: "(if cursor \<noteq> [] then cursor_start cursor (parseGitLog output) 0 else 0) = k"
    and k: "k \<le> length (parseGitLog output)"
    and noov: "int k + eff_limit limit < 2 ^ 63"
    and files: "add_files git (getProjectPath ws pid) (parseGitLog output) = Some full"
  shows "handleGetCommits ws fs git \<lparr>gc_ProjectID = pid, gc_Cursor = cursor, gc_Limit = limit\<rparr> =
     Ok \<lparr>Commits = take (nat (eff_limit limit)) (drop k full),
         NextCursor = (if int k + eff_limit limit < int (length (parseGitLog output))
                       then Hash (full ! (k + nat (eff_limit limit) - 1)) else []),
         HasNextPage = (int k + eff_limit limit < int (length (parseGitLog output)))\<rparr>"
proof -
  have "handleGetCommits ws fs git \<lparr>gc_ProjectID = pid, gc_Cursor = cursor, gc_Limit = limit\<rparr>
        = commits_page git (getProjectPath ws pid) (parseGitLog output) k (eff_limit limit)"
    using repo log start
    by (auto simp: handleGetCommits_def execGitCommand_def eff_limit_def Let_def)
  then show ?thesis
    using commits_page_eq [OF k eff_limit_pos noov files] by simp
qed

lemma after_cursor_nth:
  assumes "distinct (map Hash cs)" and "j < length cs" and "Hash (cs ! j) \<noteq> []"
  shows "after_cursor (Hash (cs ! j)) cs = drop (Suc j) cs"
proof -
  have "dropWhile (\<lambda>c. Hash c \<noteq> Hash (cs ! j)) cs
          = drop (length (takeWhile (\<lambda>c. Hash c \<noteq> Hash (cs ! j)) cs)) cs"
    by (rule dropWhile_eq_drop)
  also have "\<dots> = drop j cs"
    using assms(2) by (simp add: takeWhile_hash [OF assms(1,2)])
  finally show ?thesis using assms(3) by (simp add: after_cursor_def drop_Suc tl_drop)
qed

lemma last_page:
  assumes "k + n < length full" and "0 < n"
  shows "last (take n (drop k full)) = full ! (k + n - 1)"
proof -
  have l: "length (take n (drop k full)) = n" using assms by simp
  then have ne: "take n (drop k full) \<noteq> []" using assms(2) by auto
  have "last (take n (drop k full)) = take n (drop k full) ! (n - 1)"
    using ne l by (simp add: last_conv_nth)
  also have "\<dots> = full ! (k + (n - 1))" using assms by simp
  finally show ?thesis using assms(2) by simp
qed

lemma pages_from:
  assumes repo: "fs (Join [getProjectPath ws pid, ''.git'']) \<noteq> FsNotExist"
    and log: "git (getProjectPath ws pid) log_args = Some output"
    and dist: "distinct (map Hash (parseGitLog output))"
    and nonempty: "[] \<notin> set (map Hash (parseGitLog output))"
    and small: "length (parseGitLog output) < 2 ^ 62"
    and files: "add_files git (getProjectPath ws pid) (parseGitLog output) = Some full"
    and k: "k \<le> length (parseGitLog output)"
    and inv: "(k = 0 \<and> cursor = []) \<or>
              (0 < k \<and> cursor = Hash (parseGitLog output ! (k - 1))
               \<and> eff_limit limit < int (length (parseGitLog output)))"
    and fuel: "length (parseGitLog output) - k < fuel"
  shows "\<exists>pages. fetch_pages fuel ws fs git pid limit cursor = Some pages
           \<and> concat (map Commits pages) = drop k full
           \<and> (\<forall>i<length pages.
                 (HasNextPage (pages ! i) \<longleftrightarrow>
                    k + length (concat (map Commits (take (Suc i) pages))) < length full)
                 \<and> Commits (pages ! i)
                     = take (nat (eff_limit limit)) (drop (k + i * nat (eff_limit limit)) full)
                 \<and> (HasNextPage (pages ! i) \<longleftrightarrow>
                      k + Suc i * nat (eff_limit limit) < length full)
                 \<and> NextCursor (pages ! i)
                     = (if k + Suc i * nat (eff_limit limit) < length full
                        then Hash (full ! (k + Suc i * nat (eff_limit limit) - 1)) else [])
                 \<and> (Suc i < length pages \<longrightarrow> HasNextPage (pages ! i)))"
  using k inv fuel
proof (induction fuel arbitrary: k cursor)
  case 0
  then show ?case by simp
next
  case (Suc fuel)
  let ?all = "parseGitLog output"
  let ?L = "eff_limit limit"
  let ?n = "nat (eff_limit limit)"
  have Lpos: "0 < ?L" by (rule eff_limit_pos)
  have len: "length full = length ?all" using files by (rule add_files_length)
  have hashes: "map Hash full = map Hash ?all" using files by (rule add_files_Hash)
  have start: "(if cursor \<noteq> [] then cursor_start cursor ?all 0 else 0) = k"
  proof (cases "k = 0")
    case True
    then show ?thesis using Suc.prems(2) by auto
  next
    case False
    then have c: "cursor = Hash (?all ! (k - 1))" and kpos: "0 < k" using Suc.prems(2) by auto
    have lt: "k - 1 < length ?all" using kpos Suc.prems(1) by arith
    then have "cursor \<in> set (map Hash ?all)" using c by auto
    then have "cursor \<noteq> []" using nonempty by force
    moreover have "cursor_start cursor ?all 0 = k"
      using cursor_start_nth [OF dist lt] c kpos by simp
    ultimately show ?thesis by simp
  qed
  have noov: "int k + ?L < 2 ^ 63"
  proof (cases "k = 0")
    case True
    have "sint limit < 2 ^ 63" using sint_lt [of limit] by simp
    then show ?thesis using True by (simp add: eff_limit_def)
  next
    case False
    then have "?L < int (length ?all)" using Suc.prems(2) by auto
    then show ?thesis using Suc.prems(1) small by simp
  qed
  note page = handler_page [where fs = fs and git = git and ws = ws and pid = pid
      and limit = limit and cursor = cursor and k = k and full = full,
      OF repo log start Suc.prems(1) noov files]
  have iff: "(int k + ?L < int (length ?all)) = (k + ?n < length full)"
    using Lpos len by auto
  show ?case
  proof (cases "int k + ?L < int (length ?all)")
    case False
    then have all_taken: "take ?n (drop k full) = drop k full" using len by simp
    have nlt: "\<not> k + ?n < length full" using False iff by simp
    let ?resp = "\<lparr>Commits = take ?n (drop k full), NextCursor = [], HasNextPage = False\<rparr>"
    have fp: "fetch_pages (Suc fuel) ws fs git pid limit cursor = Some [?resp]"
      using page False by simp
    have "concat (map Commits [?resp]) = drop k full" using all_taken by simp
    moreover have "\<forall>i<length [?resp].
                 (HasNextPage ([?resp] ! i) \<longleftrightarrow>
                    k + length (concat (map Commits (take (Suc i) [?resp]))) < length full)
                 \<and> Commits ([?resp] ! i) = take ?n (drop (k + i * ?n) full)
                 \<and> (HasNextPage ([?resp] ! i) \<longleftrightarrow> k + Suc i * ?n < length full)
                 \<and> NextCursor ([?resp] ! i)
                     = (if k + Suc i * ?n < length full
                        then Hash (full ! (k + Suc i * ?n - 1)) else [])
                 \<and> (Suc i < length [?resp] \<longrightarrow> HasNextPage ([?resp] ! i))"
      using nlt all_taken by simp
    ultimately show ?thesis using fp by blast
  next
    case True
    let ?k' = "k + ?n"
    have lt: "k + ?n < length full" using True iff by simp
    have k': "?k' \<le> length ?all" using True Lpos by arith
    have k'pos: "0 < ?k'" using Lpos by simp
    have idx: "?k' - 1 < length ?all" using True Lpos by arith
    have "Hash (full ! (?k' - 1)) = map Hash full ! (?k' - 1)" using idx len by simp
    also have "\<dots> = Hash (?all ! (?k' - 1))" using idx by (simp add: hashes)
    finally have cur: "Hash (full ! (?k' - 1)) = Hash (?all ! (?k' - 1))" .
    have Llt: "?L < int (length ?all)" using True by simp
    have inv': "(?k' = 0 \<and> Hash (full ! (?k' - 1)) = []) \<or>
              (0 < ?k' \<and> Hash (full ! (?k' - 1)) = Hash (?all ! (?k' - 1)) \<and> ?L < int (length ?all))"
      using k'pos cur Llt by simp
    have fuel': "length ?all - ?k' < fuel" using Suc.prems(3) True Lpos by arith
    from Suc.IH [OF k' inv' fuel'] obtain rest where
      r1: "fetch_pages fuel ws fs git pid limit (Hash (full ! (?k' - 1))) = Some rest"
      and r2: "concat (map Commits rest) = drop ?k' full"
      and r3: "\<forall>i<length rest.
                 (HasNextPage (rest ! i) \<longleftrightarrow>
                    ?k' + length (concat (map Commits (take (Suc i) rest))) < length full)
                 \<and> Commits (rest ! i) = take ?n (drop (?k' + i * ?n) full)
                 \<and> (HasNextPage (rest ! i) \<longleftrightarrow> ?k' + Suc i * ?n < length full)
                 \<and> NextCursor (rest ! i)
                     = (if ?k' + Suc i * ?n < length full
                        then Hash (full ! (?k' + Suc i * ?n - 1)) else [])
                 \<and> (Suc i < length rest \<longrightarrow> HasNextPage (rest ! i))"
      by blast
    let ?resp = "\<lparr>Commits = take ?n (drop k full),
         NextCursor = Hash (full ! (?k' - 1)), HasNextPage = True\<rparr>"
    have fp: "fetch_pages (Suc fuel) ws fs git pid limit cursor = Some (?resp # rest)"
      using page True r1 by simp
    have lenpage: "length (take ?n (drop k full)) = ?n" using True len by simp
    have cc: "concat (map Commits (?resp # rest)) = drop k full"
    proof -
      have "drop ?k' full = drop ?n (drop k full)" by (simp add: add.commute)
      then have "take ?n (drop k full) @ drop ?k' full = drop k full"
        by (simp only: append_take_drop_id)
      then show ?thesis using r2 by simp
    qed
    have hn: "\<forall>i<length (?resp # rest).
                 (HasNextPage ((?resp # rest) ! i) \<longleftrightarrow>
                    k + length (concat (map Commits (take (Suc i) (?resp # rest))))
                      < length full)
                 \<and> Commits ((?resp # rest) ! i) = take ?n (drop (k + i * ?n) full)
                 \<and> (HasNextPage ((?resp # rest) ! i) \<longleftrightarrow> k + Suc i * ?n < length full)
                 \<and> NextCursor ((?resp # rest) ! i)
                     = (if k + Suc i * ?n < length full
                        then Hash (full ! (k + Suc i * ?n - 1)) else [])
                 \<and> (Suc i < length (?resp # rest) \<longrightarrow> HasNextPage ((?resp # rest) ! i))"
    proof (intro allI impI)
      fix i assume i: "i < length (?resp # rest)"
      show "(HasNextPage ((?resp # rest) ! i) \<longleftrightarrow>
                    k + length (concat (map Commits (take (Suc i) (?resp # rest))))
                      < length full)
                 \<and> Commits ((?resp # rest) ! i) = take ?n (drop (k + i * ?n) full)
                 \<and> (HasNextPage ((?resp # rest) ! i) \<longleftrightarrow> k + Suc i * ?n < length full)
                 \<and> NextCursor ((?resp # rest) ! i)
                     = (if k + Suc i * ?n < length full
                        then Hash (full ! (k + Suc i * ?n - 1)) else [])
                 \<and> (Suc i < length (?resp # rest) \<longrightarrow> HasNextPage ((?resp # rest) ! i))"
      proof (cases i)
        case 0
        then show ?thesis using lt lenpage by simp
      next
        case (Suc j)
        then have j: "j < length rest" using i by simp
        have e1: "k + ?n + j * ?n = k + Suc j * ?n" by simp
        have e2: "k + ?n + Suc j * ?n = k + Suc (Suc j) * ?n" by simp
        from r3 j have
          a: "HasNextPage (rest ! j) \<longleftrightarrow>
                ?k' + length (concat (map Commits (take (Suc j) rest))) < length full"
          and b: "Commits (rest ! j) = take ?n (drop (?k' + j * ?n) full)"
          and c: "HasNextPage (rest ! j) \<longleftrightarrow> ?k' + Suc j * ?n < length full"
          and d: "NextCursor (rest ! j)
                     = (if ?k' + Suc j * ?n < length full
                        then Hash (full ! (?k' + Suc j * ?n - 1)) else [])"
          and e: "Suc j < length rest \<longrightarrow> HasNextPage (rest ! j)"
          by blast+
        have a': "HasNextPage ((?resp # rest) ! i) \<longleftrightarrow>
                    k + length (concat (map Commits (take (Suc i) (?resp # rest))))
                      < length full"
          using Suc a lenpage by (simp add: add.assoc)
        have b': "Commits ((?resp # rest) ! i) = take ?n (drop (k + i * ?n) full)"
          using Suc b unfolding e1 by simp
        have c': "HasNextPage ((?resp # rest) ! i) \<longleftrightarrow> k + Suc i * ?n < length full"
          using Suc c unfolding e2 by simp
        have d': "NextCursor ((?resp # rest) ! i)
                     = (if k + Suc i * ?n < length full
                        then Hash (full ! (k + Suc i * ?n - 1)) else [])"
          using Suc d unfolding e2 by simp
        have e': "Suc i < length (?resp # rest) \<longrightarrow> HasNextPage ((?resp # rest) ! i)"
          using Suc e by simp
        show ?thesis using a' b' c' d' e' by blast
      qed
    qed
    show ?thesis using fp cc hn by blast
  qed
qed

text \<open>
  C6. In a repository whose log lists every commit once, under a hash that is not empty
  (and in a list short enough to exist in memory), let \<open>full\<close> be the unbounded listing (the
  parsed log with the changed files of every commit) and \<open>L\<close> the page size in force, the
  requested limit, or \<open>20\<close> when that is absent or not positive.

  A request whose cursor is empty or the hash of a commit is answered with the first \<open>L\<close>
  commits that follow the cursor's commit (of the whole listing when there is no cursor);
  \<open>has_next_page\<close> is set exactly when more than \<open>L\<close> commits follow, and \<open>next_cursor\<close>
  is then the hash of the last commit of the page.

  A client that starts without a cursor and passes each returned \<open>next_cursor\<close> on stops
  after at most \<open>length full + 1\<close> requests. The pages it receives, concatenated, are
  \<open>full\<close>, with no commit twice, whatever the limit; page \<open>i\<close> holds the commits
  \<open>i * L\<close> to \<open>(i + 1) * L - 1\<close> of \<open>full\<close>, so every page but the last has \<open>L\<close> commits;
  each page has \<open>has_next_page\<close> set exactly when commits remain after it, with the hash of
  its last commit as \<open>next_cursor\<close>; and the page that follows starts at the commit
  immediately after that hash.
\<close>

theorem C6_pagination:
  assumes repo: "fs (Join [getProjectPath ws pid, ''.git'']) \<noteq> FsNotExist"
    and log: "git (getProjectPath ws pid) log_args = Some out"
    and dist: "distinct (map Hash (parseGitLog out))"
    and nonempty: "[] \<notin> set (map Hash (parseGitLog out))"
    and small: "length (parseGitLog out) < 2 ^ 62"
    and files: "add_files git (getProjectPath ws pid) (parseGitLog out) = Some full"
  shows "(\<forall>cursor.
            (cursor = [] \<or> cursor \<in> set (map Hash full))
            \<and> int (length full) + eff_limit limit < 2 ^ 63 \<longrightarrow>
            handleGetCommits ws fs git
                \<lparr>gc_ProjectID = pid, gc_Cursor = cursor, gc_Limit = limit\<rparr>
              = Ok \<lparr>Commits = take (nat (eff_limit limit)) (after_cursor cursor full),
                    NextCursor =
                      (if nat (eff_limit limit) < length (after_cursor cursor full)
                       then Hash (last (take (nat (eff_limit limit))
                                          (after_cursor cursor full)))
                       else []),
                    HasNextPage =
                      (nat (eff_limit limit) < length (after_cursor cursor full))\<rparr>)
         \<and> (\<exists>pages. fetch_pages (Suc (length full)) ws fs git pid limit [] = Some pages
              \<and> concat (map Commits pages) = full
              \<and> distinct (map Hash (concat (map Commits pages)))
              \<and> (\<forall>i<length pages.
                    (HasNextPage (pages ! i) \<longleftrightarrow>
                       length (concat (map Commits (take (Suc i) pages))) < length full)
                    \<and> Commits (pages ! i)
                        = take (nat (eff_limit limit)) (drop (i * nat (eff_limit limit)) full)
                    \<and> NextCursor (pages ! i)
                        = (if HasNextPage (pages ! i) then Hash (last (Commits (pages ! i)))
                           else [])
                    \<and> (Suc i < length pages \<longrightarrow>
                         Commits (pages ! Suc i)
                           = take (nat (eff_limit limit))
                               (after_cursor (NextCursor (pages ! i)) full))))"
proof (intro conjI allI impI)
  let ?all = "parseGitLog out"
  let ?L = "eff_limit limit"
  let ?n = "nat (eff_limit limit)"
  have Lpos: "0 < ?L" by (rule eff_limit_pos)
  have npos: "0 < ?n" using Lpos by simp
  have len: "length full = length ?all" using files by (rule add_files_length)
  have hashes: "map Hash full = map Hash ?all" using files by (rule add_files_Hash)
  have dfull: "distinct (map Hash full)" using dist hashes by simp
  have nefull: "[] \<notin> set (map Hash full)" using nonempty hashes by simp
  {
    fix cursor
    assume h: "(cursor = [] \<or> cursor \<in> set (map Hash full))
            \<and> int (length full) + ?L < 2 ^ 63"
    obtain k where start: "(if cursor \<noteq> [] then cursor_start cursor ?all 0 else 0) = k"
      and kle: "k \<le> length ?all" and ac: "after_cursor cursor full = drop k full"
    proof (cases "cursor = []")
      case True
      then have "(if cursor \<noteq> [] then cursor_start cursor ?all 0 else 0) = 0"
        "0 \<le> length ?all" "after_cursor cursor full = drop 0 full"
        by (simp_all add: after_cursor_def)
      then show ?thesis using that by blast
    next
      case False
      then have "cursor \<in> set (map Hash full)" using h by simp
      then obtain j where j: "j < length full" and cj: "cursor = Hash (full ! j)"
        by (auto simp: in_set_conv_nth)
      have "Hash (full ! j) = map Hash full ! j" using j by simp
      also have "\<dots> = Hash (?all ! j)" using j len by (simp add: hashes)
      finally have cj': "cursor = Hash (?all ! j)" using cj by simp
      have j': "j < length ?all" using j len by simp
      have s: "cursor_start cursor ?all 0 = Suc j"
        unfolding cj' using dist j' by (rule cursor_start_nth)
      have "Hash (full ! j) \<noteq> []" using False cj by simp
      then have "after_cursor (Hash (full ! j)) full = drop (Suc j) full"
        using dfull j by (intro after_cursor_nth)
      then have "after_cursor cursor full = drop (Suc j) full" using cj by simp
      moreover have "(if cursor \<noteq> [] then cursor_start cursor ?all 0 else 0) = Suc j"
        using False s by simp
      moreover have "Suc j \<le> length ?all" using j' by simp
      ultimately show ?thesis using that by blast
    qed
    have noov: "int k + ?L < 2 ^ 63" using h kle len by simp
    note page = handler_page [where fs = fs and git = git and ws = ws and pid = pid
      and limit = limit and cursor = cursor and k = k and full = full,
      OF repo log start kle noov files]
    have iff: "(int k + ?L < int (length ?all)) = (?n < length (drop k full))"
      using Lpos len kle by auto
    have nc: "(if int k + ?L < int (length ?all)
                then Hash (full ! (k + ?n - 1)) else [])
              = (if ?n < length (drop k full)
                 then Hash (last (take ?n (drop k full))) else [])"
    proof (cases "?n < length (drop k full)")
      case True
      then have "k + ?n < length full" by simp
      then have "last (take ?n (drop k full)) = full ! (k + ?n - 1)"
        using npos by (rule last_page)
      then show ?thesis using True iff by simp
    next
      case False
      then show ?thesis using iff by simp
    qed
    show "handleGetCommits ws fs git
                \<lparr>gc_ProjectID = pid, gc_Cursor = cursor, gc_Limit = limit\<rparr>
              = Ok \<lparr>Commits = take ?n (after_cursor cursor full),
                    NextCursor =
                      (if ?n < length (after_cursor cursor full)
                       then Hash (last (take ?n (after_cursor cursor full)))
                       else []),
                    HasNextPage = (?n < length (after_cursor cursor full))\<rparr>"
      by (simp only: page nc) (simp add: ac iff)
  }
  have k: "0 \<le> length ?all" by simp
  have inv: "(0 = (0::nat) \<and> ([]::string) = []) \<or>
              (0 < (0::nat) \<and> [] = Hash (?all ! (0 - 1))
               \<and> ?L < int (length ?all))" by simp
  have fuel: "length ?all - 0 < Suc (length full)" using len by simp
  from pages_from [where fs = fs and git = git and ws = ws and pid = pid and limit = limit
      and k = 0 and cursor = "[]" and full = full and fuel = "Suc (length full)",
      OF repo log dist nonempty small files k inv fuel]
  obtain pages where p1: "fetch_pages (Suc (length full)) ws fs git pid limit [] = Some pages"
    and p2: "concat (map Commits pages) = full"
    and p3: "\<forall>i<length pages.
                 (HasNextPage (pages ! i) \<longleftrightarrow>
                    length (concat (map Commits (take (Suc i) pages))) < length full)
                 \<and> Commits (pages ! i) = take ?n (drop (i * ?n) full)
                 \<and> (HasNextPage (pages ! i) \<longleftrightarrow> Suc i * ?n < length full)
                 \<and> NextCursor (pages ! i)
                     = (if Suc i * ?n < length full
                        then Hash (full ! (Suc i * ?n - 1)) else [])
                 \<and> (Suc i < length pages \<longrightarrow> HasNextPage (pages ! i))"
    unfolding add_0 drop_0 by blast
  have p4: "(HasNextPage (pages ! i) \<longleftrightarrow>
                length (concat (map Commits (take (Suc i) pages))) < length full)
            \<and> Commits (pages ! i) = take ?n (drop (i * ?n) full)
            \<and> NextCursor (pages ! i)
                = (if HasNextPage (pages ! i) then Hash (last (Commits (pages ! i))) else [])
            \<and> (Suc i < length pages \<longrightarrow>
                 Commits (pages ! Suc i)
                   = take ?n (after_cursor (NextCursor (pages ! i)) full))"
    if i: "i < length pages" for i
  proof -
    from p3 i have a: "HasNextPage (pages ! i) \<longleftrightarrow>
                    length (concat (map Commits (take (Suc i) pages))) < length full"
      and b: "Commits (pages ! i) = take ?n (drop (i * ?n) full)"
      and c: "HasNextPage (pages ! i) \<longleftrightarrow> Suc i * ?n < length full"
      and d: "NextCursor (pages ! i)
                     = (if Suc i * ?n < length full
                        then Hash (full ! (Suc i * ?n - 1)) else [])"
      and g: "Suc i < length pages \<longrightarrow> HasNextPage (pages ! i)"
      by blast+
    have la: "last (take ?n (drop (i * ?n) full)) = full ! (Suc i * ?n - 1)"
      if "Suc i * ?n < length full"
    proof -
      have "i * ?n + ?n < length full" using that by (simp add: add.commute)
      then have "last (take ?n (drop (i * ?n) full)) = full ! (i * ?n + ?n - 1)"
        using npos by (rule last_page)
      then show ?thesis by (simp add: add.commute)
    qed
    have e: "NextCursor (pages ! i)
                = (if HasNextPage (pages ! i) then Hash (last (Commits (pages ! i))) else [])"
      using c d b la by simp
    have f: "Commits (pages ! Suc i) = take ?n (after_cursor (NextCursor (pages ! i)) full)"
      if si: "Suc i < length pages"
    proof -
      have more: "Suc i * ?n < length full" using g si c by simp
      have idx: "Suc i * ?n - 1 < length full" using more by simp
      have "Hash (full ! (Suc i * ?n - 1)) \<in> set (map Hash full)" using idx by simp
      then have ne: "Hash (full ! (Suc i * ?n - 1)) \<noteq> []" using nefull by metis
      have "after_cursor (Hash (full ! (Suc i * ?n - 1))) full
              = drop (Suc (Suc i * ?n - 1)) full"
        using dfull idx ne by (rule after_cursor_nth)
      also have "Suc (Suc i * ?n - 1) = Suc i * ?n" using npos by simp
      finally have ac: "after_cursor (NextCursor (pages ! i)) full = drop (Suc i * ?n) full"
        using d more by simp
      from p3 si have "Commits (pages ! Suc i) = take ?n (drop (Suc i * ?n) full)" by blast
      then show ?thesis using ac by simp
    qed
    show ?thesis using a b e f by blast
  qed
  have dd: "distinct (map Hash (concat (map Commits pages)))" using dfull p2 by simp
  show "\<exists>pages. fetch_pages (Suc (length full)) ws fs git pid limit [] = Some pages
              \<and> concat (map Commits pages) = full
              \<and> distinct (map Hash (concat (map Commits pages)))
              \<and> (\<forall>i<length pages.
                    (HasNextPage (pages ! i) \<longleftrightarrow>
                       length (concat (map Commits (take (Suc i) pages))) < length full)
                    \<and> Commits (pages ! i) = take ?n (drop (i * ?n) full)
                    \<and> NextCursor (pages ! i)
                        = (if HasNextPage (pages ! i) then Hash (last (Commits (pages ! i)))
                           else [])
                    \<and> (Suc i < length pages \<longrightarrow>
                         Commits (pages ! Suc i)
                           = take ?n (after_cursor (NextCursor (pages ! i)) full)))"
    using p1 p2 dd p4 by blast
qed

theorem C6_pagination_witness:
  "(\<exists>pages.
     fetch_pages 4 ''/ws'' (\<lambda>p. FsDir None)
       (\<lambda>wd args. if args = log_args
          then Some (''d t z h1  s1 [a]'' @ [CHR 0x0A] @ ''d t z h2  s2 [a]'' @ [CHR 0x0A]
                     @ ''d t z h3  s3 [a]'')
          else Some (''M'' @ [CHR 0x09] @ ''a.go''))
       ''p'' 2 [] = Some pages
     \<and> map Hash (concat (map Commits pages)) = [''h1'', ''h2'', ''h3''])
   \<and> handleGetCommits ''/ws'' (\<lambda>p. FsDir None)
       (\<lambda>wd args. if args = log_args
          then Some (''d t z h1  s1 [a]'' @ [CHR 0x0A] @ ''d t z h2  s2 [a]'' @ [CHR 0x0A]
                     @ ''d t z h3  s3 [a]'')
          else Some (''M'' @ [CHR 0x09] @ ''a.go''))
       \<lparr>gc_ProjectID = ''p'', gc_Cursor = ''h1'', gc_Limit = 1\<rparr>
     = Ok \<lparr>Commits = [\<lparr>Hash = ''h2'', Message = ''s2'', Date = ''d t z'',
                        Files = [\<lparr>cf_Path = ''a.go'', cf_Type = ''modified''\<rparr>]\<rparr>],
           NextCursor = ''h2'', HasNextPage = True\<rparr>"
proof -
  let ?out = "''d t z h1  s1 [a]'' @ [CHR 0x0A] @ ''d t z h2  s2 [a]'' @ [CHR 0x0A]
                     @ ''d t z h3  s3 [a]''"
  let ?git = "\<lambda>(wd::string) args. if args = log_args then Some ?out
          else Some (''M'' @ [CHR 0x09] @ ''a.go'')"
  let ?fs = "\<lambda>p::string. FsDir None"
  let ?f = "[\<lparr>cf_Path = ''a.go'', cf_Type = ''modified''\<rparr>]"
  let ?full = "[\<lparr>Hash = ''h1'', Message = ''s1'', Date = ''d t z'', Files = ?f\<rparr>,
     \<lparr>Hash = ''h2'', Message = ''s2'', Date = ''d t z'', Files = ?f\<rparr>,
     \<lparr>Hash = ''h3'', Message = ''s3'', Date = ''d t z'', Files = ?f\<rparr>]"
  have parsed: "parseGitLog ?out =
     [\<lparr>Hash = ''h1'', Message = ''s1'', Date = ''d t z'', Files = []\<rparr>,
      \<lparr>Hash = ''h2'', Message = ''s2'', Date = ''d t z'', Files = []\<rparr>,
      \<lparr>Hash = ''h3'', Message = ''s3'', Date = ''d t z'', Files = []\<rparr>]"
    by (simp add: parseGitLog_def parse_line_def List.map_filter_def trim_eval
        Let_def eval_nat_numeral)
  have repo: "?fs (Join [getProjectPath ''/ws'' ''p'', ''.git'']) \<noteq> FsNotExist" by simp
  have log: "?git (getProjectPath ''/ws'' ''p'') log_args = Some ?out" by simp
  have dist: "distinct (map Hash (parseGitLog ?out))" using parsed by simp
  have nonempty: "[] \<notin> set (map Hash (parseGitLog ?out))" using parsed by simp
  have small: "length (parseGitLog ?out) < 2 ^ 62" using parsed by simp
  have files: "add_files ?git (getProjectPath ''/ws'' ''p'') (parseGitLog ?out) = Some ?full"
    using parsed
    by (simp add: execGitCommand_def show_args_def log_args_def parse_status_line_def
        List.map_filter_def trim_eval Fields_def Let_def)
  have fuel: "Suc (length ?full) = 4" by simp
  note thm2 = C6_pagination [where fs = ?fs and git = ?git and ws = "''/ws''"
      and pid = "''p''" and limit = 2 and full = ?full,
      OF repo log dist nonempty small files]
  note thm1 = C6_pagination [where fs = ?fs and git = ?git and ws = "''/ws''"
      and pid = "''p''" and limit = 1 and full = ?full,
      OF repo log dist nonempty small files]
  from thm2
  obtain pages where a: "fetch_pages (Suc (length ?full)) ''/ws'' ?fs ?git ''p'' 2 [] = Some pages"
    and b: "concat (map Commits pages) = ?full"
    by blast
  have a': "fetch_pages 4 ''/ws'' ?fs ?git ''p'' 2 [] = Some pages"
    using a unfolding fuel .
  have c: "map Hash (concat (map Commits pages)) = [''h1'', ''h2'', ''h3'']"
    unfolding b by simp
  have first: "\<exists>pages. fetch_pages 4 ''/ws'' ?fs ?git ''p'' 2 [] = Some pages
     \<and> map Hash (concat (map Commits pages)) = [''h1'', ''h2'', ''h3'']"
    by (rule exI [where x = pages], rule conjI, rule a', rule c)
  have e1: "eff_limit 1 = 1" by (simp add: eff_limit_def)
  have pre: "(''h1'' = [] \<or> ''h1'' \<in> set (map Hash ?full))
            \<and> int (length ?full) + eff_limit 1 < 2 ^ 63"
    by (simp add: e1)
  have ac: "after_cursor ''h1'' ?full = tl ?full" by (simp add: after_cursor_def)
  from thm1 have "\<forall>cursor.
            (cursor = [] \<or> cursor \<in> set (map Hash ?full))
            \<and> int (length ?full) + eff_limit 1 < 2 ^ 63 \<longrightarrow>
            handleGetCommits ''/ws'' ?fs ?git
                \<lparr>gc_ProjectID = ''p'', gc_Cursor = cursor, gc_Limit = 1\<rparr>
              = Ok \<lparr>Commits = take (nat (eff_limit 1)) (after_cursor cursor ?full),
                    NextCursor =
                      (if nat (eff_limit 1) < length (after_cursor cursor ?full)
                       then Hash (last (take (nat (eff_limit 1))
                                          (after_cursor cursor ?full)))
                       else []),
                    HasNextPage =
                      (nat (eff_limit 1) < length (after_cursor cursor ?full))\<rparr>"
    by (rule conjunct1)
  from this [rule_format, OF pre]
  have second: "handleGetCommits ''/ws'' ?fs ?git
       \<lparr>gc_ProjectID = ''p'', gc_Cursor = ''h1'', gc_Limit = 1\<rparr>
     = Ok \<lparr>Commits = [\<lparr>Hash = ''h2'', Message = ''s2'', Date = ''d t z'', Files = ?f\<rparr>],
           NextCursor = ''h2'', HasNextPage = True\<rparr>"
    unfolding ac e1 by simp
  show ?thesis using first second by (rule conjI)
qed

subsection \<open>The git log parser\<close>

lemma SplitN_field:
  "sep \<notin> set a \<Longrightarrow> SplitN (a @ sep # rest) sep (Suc (Suc n)) = a # SplitN rest sep (Suc n)"
  by (induction a) auto

lemma Split_no_sep: "sep \<notin> set s \<Longrightarrow> Split s sep = [s]"
  by (induction s) auto

lemma Index_append_absent:
  "c \<notin> set p \<Longrightarrow>
     Index (p @ s) [c] = (if Index s [c] = - 1 then - 1 else int (length p) + Index s [c])"
  using Index_ge [of s "[c]"] by (induction p) (auto simp: Let_def)

lemma Index_hit: "c \<notin> set p \<Longrightarrow> Index (p @ c # s) [c] = int (length p)"
  by (induction p) (auto simp: Let_def)

lemma LastIndex_none_iff: "LastIndex s sub = - 1 \<longleftrightarrow> Index s sub = - 1"
proof (induction s)
  case Nil
  then show ?case by simp
next
  case (Cons a s)
  have "- 1 \<le> Index s sub" "- 1 \<le> LastIndex s sub" by (rule Index_ge, rule LastIndex_ge)
  with Cons show ?case by (auto simp: Let_def)
qed

lemma LastIndex_append:
  "LastIndex s sub \<noteq> - 1 \<Longrightarrow> LastIndex (p @ s) sub = int (length p) + LastIndex s sub"
  using LastIndex_ge [of s sub] by (induction p) (auto simp: Let_def)

lemma Index_tag_none_snoc:
  "Index a '' ['' = - 1 \<Longrightarrow> Index (a @ '']'') '' ['' = - 1"
proof (induction a)
  case Nil
  then show ?case by simp
next
  case (Cons c a)
  have ge: "- 1 \<le> Index a '' [''" by (rule Index_ge)
  from Cons.prems have np: "\<not> HasPrefix (c # a) '' [''" and ia: "Index a '' ['' = - 1"
    using ge by (auto simp: Let_def split: if_splits)
  have "\<not> HasPrefix (c # a @ '']'') '' [''" using np by (cases a) auto
  then show ?case using Cons.IH [OF ia] by simp
qed

lemma LastIndex_author_tag:
  assumes "\<not> Contains author '' [''"
  shows "LastIndex (p @ '' ['' @ author @ '']'') '' ['' = int (length p)"
proof -
  have "Index (author @ '']'') '' ['' = - 1"
    using assms by (simp add: Contains_def Index_tag_none_snoc)
  then have "LastIndex (author @ '']'') '' ['' = - 1" by (simp add: LastIndex_none_iff)
  then have "LastIndex ('' ['' @ author @ '']'') '' ['' = 0" by simp
  then show ?thesis using LastIndex_append [of "'' ['' @ author @ '']''" "'' [''" p] by simp
qed

lemma space_prefix_ascii: "ascii_space a \<Longrightarrow> space_prefix (a # s) = 1"
  by (cases "a # s" rule: space_prefix.cases) simp_all

lemma space_prefix_le: "space_prefix s \<le> length s"
  by (cases s rule: space_prefix.cases) simp_all

lemma space_prefix_append:
  "space_prefix s \<noteq> 0 \<Longrightarrow> space_prefix (s @ r) = space_prefix s"
proof (cases s rule: space_prefix.cases)
  case 1
  then show "space_prefix s \<noteq> 0 \<Longrightarrow> ?thesis" by simp
next
  case (2 a)
  then show "space_prefix s \<noteq> 0 \<Longrightarrow> ?thesis"
    by (simp add: space_prefix_ascii split: if_splits)
next
  case (3 a b)
  then show "space_prefix s \<noteq> 0 \<Longrightarrow> ?thesis"
    by (cases r) (simp_all split: if_splits)
next
  case (4 a b c t)
  then show "space_prefix s \<noteq> 0 \<Longrightarrow> ?thesis" by simp
qed

lemma space_prefix_before_space:
  assumes "t \<noteq> []" and "space_prefix t = 0"
  shows "space_prefix (t @ CHR '' '' # r) = 0"
proof (cases t rule: space_prefix.cases)
  case 1
  then show ?thesis using assms by simp
next
  case (2 a)
  then show ?thesis using assms
    by (cases r) (simp_all add: space2_def space3_def split: if_splits)
next
  case (3 a b)
  then show ?thesis using assms by (simp add: space3_def split: if_splits)
next
  case (4 a b c t')
  then show ?thesis using assms by simp
qed

lemma TrimLeftSpace_space: "TrimLeftSpace (CHR '' '' # s) = TrimLeftSpace s"
proof -
  have "space_prefix (CHR '' '' # s) = 1"
    by (rule space_prefix_ascii) (simp add: ascii_space_def)
  then show ?thesis by (subst TrimLeftSpace.simps) simp
qed

lemma space_prefix_TrimLeftSpace: "space_prefix (TrimLeftSpace s) = 0"
proof (induction s rule: TrimLeftSpace.induct)
  case (1 s)
  show ?case
  proof (cases "space_prefix s = 0")
    case True
    then show ?thesis by (subst TrimLeftSpace.simps) simp
  next
    case False
    then show ?thesis using 1 by (subst TrimLeftSpace.simps) simp
  qed
qed

lemma TrimLeftSpace_idem: "TrimLeftSpace (TrimLeftSpace s) = TrimLeftSpace s"
  by (subst TrimLeftSpace.simps) (simp add: space_prefix_TrimLeftSpace)

lemma TrimLeftSpace_before_space:
  "TrimLeftSpace s \<noteq> [] \<Longrightarrow>
     TrimLeftSpace (s @ CHR '' '' # r) = TrimLeftSpace s @ CHR '' '' # r"
proof (induction s rule: TrimLeftSpace.induct)
  case (1 s)
  show ?case
  proof (cases "space_prefix s = 0")
    case True
    then have e: "TrimLeftSpace s = s" by (subst TrimLeftSpace.simps) simp
    then have "s \<noteq> []" using "1.prems" by simp
    then have "space_prefix (s @ CHR '' '' # r) = 0"
      using True by (rule space_prefix_before_space)
    then have "TrimLeftSpace (s @ CHR '' '' # r) = s @ CHR '' '' # r"
      by (subst TrimLeftSpace.simps) simp
    then show ?thesis using e by simp
  next
    case False
    let ?n = "space_prefix s"
    have e: "TrimLeftSpace s = TrimLeftSpace (drop ?n s)"
      using False by (subst TrimLeftSpace.simps) simp
    have n: "space_prefix (s @ CHR '' '' # r) = ?n"
      using False by (rule space_prefix_append)
    have d: "drop ?n (s @ CHR '' '' # r) = drop ?n s @ CHR '' '' # r"
      using space_prefix_le [of s] by simp
    have "TrimLeftSpace (s @ CHR '' '' # r) = TrimLeftSpace (drop ?n s @ CHR '' '' # r)"
      using False n d by (subst TrimLeftSpace.simps) simp
    also have "\<dots> = TrimLeftSpace (drop ?n s) @ CHR '' '' # r"
      using "1.IH" [OF False] "1.prems" e by simp
    finally show ?thesis using e by simp
  qed
qed

lemma TrimSpace_space: "TrimSpace (CHR '' '' # s) = TrimSpace s"
  by (simp add: TrimSpace_def TrimLeftSpace_space)

lemma TrimSpace_left: "TrimSpace (TrimLeftSpace s) = TrimSpace s"
  by (simp add: TrimSpace_def TrimLeftSpace_idem)

lemma TrimRightSpace_tag: "TrimRightSpace (s @ '']'') = s @ '']''"
proof -
  have "space_suffix (s @ '']'') = 0"
    by (simp add: space_suffix_def ascii_space_def space2_def space3_def split: list.splits)
  then show ?thesis by (subst TrimRightSpace.simps) simp
qed

lemma TrimSpace_before_tag:
  assumes "TrimSpace subject \<noteq> []"
  shows "TrimSpace (CHR '' '' # subject @ '' ['' @ author @ '']'')
           = TrimLeftSpace subject @ '' ['' @ author @ '']''"
proof -
  have ne: "TrimLeftSpace subject \<noteq> []"
  proof
    assume e: "TrimLeftSpace subject = []"
    have "TrimRightSpace [] = []"
      by (subst TrimRightSpace.simps) (simp add: space_suffix_def)
    then have "TrimSpace subject = []" unfolding TrimSpace_def e .
    with assms show False by simp
  qed
  have "TrimLeftSpace (subject @ CHR '' '' # (''['' @ author @ '']''))
          = TrimLeftSpace subject @ CHR '' '' # (''['' @ author @ '']'')"
    using ne by (rule TrimLeftSpace_before_space)
  then have l: "TrimLeftSpace (CHR '' '' # subject @ '' ['' @ author @ '']'')
             = (TrimLeftSpace subject @ '' ['' @ author) @ '']''"
    by (simp add: TrimLeftSpace_space)
  show ?thesis unfolding TrimSpace_def l TrimRightSpace_tag by simp
qed

lemma parse_line_fields:
  assumes "CHR '' '' \<notin> set date" and "CHR '' '' \<notin> set time"
    and "CHR '' '' \<notin> set zone" and "CHR '' '' \<notin> set hash"
  shows "parse_line (date @ '' '' @ time @ '' '' @ zone @ '' '' @ hash @ '' '' @ remaining) =
     (let idx = Index remaining '')'';
          branchStart = Index remaining ''('';
          message = (if idx \<noteq> -1 \<and> branchStart \<noteq> -1 \<and> branchStart < idx
                     then TrimSpace (drop (nat (idx + 1)) remaining) else remaining);
          idx2 = LastIndex message '' ['';
          message2 = (if idx2 \<noteq> -1 then TrimSpace (take (nat idx2) message) else message)
      in Some \<lparr>Hash = hash, Message = message2,
                Date = date @ '' '' @ time @ '' '' @ zone, Files = []\<rparr>)"
proof -
  have five: "(5::nat) = Suc (Suc (Suc (Suc (Suc 0))))" by simp
  have sp: "SplitN (date @ '' '' @ time @ '' '' @ zone @ '' '' @ hash @ '' '' @ remaining)
              CHR '' '' 5 = [date, time, zone, hash, remaining]"
    unfolding five using assms by (simp add: SplitN_field)
  show ?thesis unfolding parse_line_def sp by (simp add: Let_def)
qed

text \<open>
  C7, as stated, fails. The parser looks for the first \<open>)\<close> of the whole rest of the
  line, the author tag included: a commit with no ref names whose author name holds a
  pair of parentheses loses its subject, although the subject has no parenthesis.
\<close>

theorem C7_author_with_parentheses:
  "CHR ''('' \<notin> set ''fix typo'' \<and> CHR '')'' \<notin> set ''fix typo''
   \<and> map Message (parseGitLog
         (git_log_line ''2024-01-01'' ''10:00:00'' ''+0000'' ''abc123'' None ''fix typo''
            ''Jo (Work)'')) = ['']'']"
  by (simp add: git_log_line_def parseGitLog_def parse_line_def List.map_filter_def
      trim_eval Let_def eval_nat_numeral)

text \<open>
  C7, amended. For every line of the format \<open>%ai %H %d %s [%an]\<close> the parser returns one
  commit, with the date made of the first three fields and the hash that is the fourth. Its
  subject is the original subject with surrounding white space trimmed, provided that: the
  subject contains no parenthesis; the author name does not contain \<open> [\<close>; when the line
  has a ref list, the ref names contain no \<open>)\<close> and the subject is not blank; and when it
  has none, the author name has no \<open>(\<close> before its first \<open>)\<close>.
\<close>

theorem C7_parse_git_log_line:
  assumes fields: "CHR '' '' \<notin> set date" "CHR '' '' \<notin> set time"
      "CHR '' '' \<notin> set zone" "CHR '' '' \<notin> set hash"
    and one_line: "CHR 0x0A \<notin> set (git_log_line date time zone hash refs subject author)"
  shows "\<exists>m. parseGitLog (git_log_line date time zone hash refs subject author) =
               [\<lparr>Hash = hash, Message = m,
                 Date = date @ '' '' @ time @ '' '' @ zone, Files = []\<rparr>]
           \<and> (CHR ''('' \<notin> set subject \<and> CHR '')'' \<notin> set subject
                \<and> (case refs of
                      None \<Rightarrow> \<not> paren_pair author
                    | Some names \<Rightarrow> CHR '')'' \<notin> set names \<and> TrimSpace subject \<noteq> [])
                \<and> \<not> Contains author '' [''
              \<longrightarrow> m = TrimSpace subject)"
proof -
  let ?line = "git_log_line date time zone hash refs subject author"
  let ?c = "\<lparr>Hash = hash, Message = TrimSpace subject,
             Date = date @ '' '' @ time @ '' '' @ zone, Files = []\<rparr>"
  let ?rem0 = "(case refs of None \<Rightarrow> [] | Some names \<Rightarrow> '' ('' @ names @ '')'')
       @ '' '' @ subject @ '' ['' @ author @ '']''"
  have line0: "?line = date @ '' '' @ time @ '' '' @ zone @ '' '' @ hash @ '' '' @ ?rem0"
    by (simp add: git_log_line_def)
  have sp: "Split ?line CHR 0x0A = [?line]" using one_line by (rule Split_no_sep)
  obtain m where pm: "parse_line ?line = Some \<lparr>Hash = hash, Message = m,
       Date = date @ '' '' @ time @ '' '' @ zone, Files = []\<rparr>"
    unfolding line0 parse_line_fields [OF fields] by (simp add: Let_def)
  have pl: "parse_line ?line = Some ?c"
    if subj: "CHR ''('' \<notin> set subject" "CHR '')'' \<notin> set subject"
      and refs: "case refs of
                 None \<Rightarrow> \<not> paren_pair author
               | Some names \<Rightarrow> CHR '')'' \<notin> set names \<and> TrimSpace subject \<noteq> []"
      and auth: "\<not> Contains author '' [''"
  proof (cases refs)
    case None
    let ?rem = "CHR '' '' # subject @ '' ['' @ author @ '']''"
    have line: "?line = date @ '' '' @ time @ '' '' @ zone @ '' '' @ hash @ '' '' @ ?rem"
      using None by (simp add: git_log_line_def)
    have pre1: "CHR '')'' \<notin> set (CHR '' '' # subject @ '' ['')"
      and pre2: "CHR ''('' \<notin> set (CHR '' '' # subject @ '' ['')" using subj by auto
    have rem: "?rem = (CHR '' '' # subject @ '' ['') @ (author @ '']'')" by simp
    have i1: "Index (author @ '']'') '')'' = - 1 \<longleftrightarrow> Index author '')'' = - 1"
      by (simp add: Index_single_absent)
    have nop: "\<not> paren_pair author" using refs None by simp
    have cond: "\<not> (Index ?rem '')'' \<noteq> - 1 \<and> Index ?rem ''('' \<noteq> - 1
                   \<and> Index ?rem ''('' < Index ?rem '')'')"
    proof (cases "CHR '')'' \<in> set author")
      case False
      then have "CHR '')'' \<notin> set ?rem" using subj by auto
      then have "Index ?rem '')'' = - 1" by (simp add: Index_single_absent)
      then show ?thesis by simp
    next
      case True
      then obtain a b where ab: "author = a @ CHR '')'' # b" "CHR '')'' \<notin> set a"
        by (meson split_list_first)
      have ia: "Index author '')'' = int (length a)"
        unfolding ab(1) using ab(2) by (rule Index_hit)
      have ir: "Index ?rem '')'' = int (length (CHR '' '' # subject @ '' ['' @ a))"
      proof -
        have "?rem = (CHR '' '' # subject @ '' ['' @ a) @ CHR '')'' # (b @ '']'')"
          using ab(1) by simp
        moreover have "CHR '')'' \<notin> set (CHR '' '' # subject @ '' ['' @ a)"
          using subj ab(2) by auto
        ultimately show ?thesis using Index_hit by metis
      qed
      show ?thesis
      proof (cases "CHR ''('' \<in> set author")
        case False
        then have "CHR ''('' \<notin> set ?rem" using subj by auto
        then have "Index ?rem ''('' = - 1" by (simp add: Index_single_absent)
        then show ?thesis by simp
      next
        case True
        then obtain c d where cd: "author = c @ CHR ''('' # d" "CHR ''('' \<notin> set c"
          by (meson split_list_first)
        have ic: "Index author ''('' = int (length c)"
          unfolding cd(1) using cd(2) by (rule Index_hit)
        have jr: "Index ?rem ''('' = int (length (CHR '' '' # subject @ '' ['' @ c))"
        proof -
          have "?rem = (CHR '' '' # subject @ '' ['' @ c) @ CHR ''('' # (d @ '']'')"
            using cd(1) by simp
          moreover have "CHR ''('' \<notin> set (CHR '' '' # subject @ '' ['' @ c)"
            using subj cd(2) by auto
          ultimately show ?thesis using Index_hit by metis
        qed
        have "\<not> int (length c) < int (length a)"
          using nop ia ic by (simp add: paren_pair_def)
        then show ?thesis unfolding ir jr by simp
      qed
    qed
    have li: "LastIndex ?rem '' ['' = int (length (CHR '' '' # subject))"
      using LastIndex_author_tag [OF auth, of "CHR '' '' # subject"] by simp
    have tk: "take (nat (int (length (CHR '' '' # subject)))) ?rem = CHR '' '' # subject"
    proof -
      have "nat (int (length (CHR '' '' # subject))) = length (CHR '' '' # subject)" by simp
      moreover have "?rem = (CHR '' '' # subject) @ ('' ['' @ author @ '']'')" by simp
      ultimately show ?thesis by (metis append_eq_conv_conj)
    qed
    show ?thesis
      unfolding line parse_line_fields [OF fields]
      using cond by (simp only: Let_def li tk if_False TrimSpace_space) simp
  next
    case (Some names)
    let ?rest = "CHR '' '' # subject @ '' ['' @ author @ '']''"
    let ?rem = "'' ('' @ names @ '')'' @ ?rest"
    have line: "?line = date @ '' '' @ time @ '' '' @ zone @ '' '' @ hash @ '' '' @ ?rem"
      using Some by (simp add: git_log_line_def)
    have nn: "CHR '')'' \<notin> set names" and ts: "TrimSpace subject \<noteq> []"
      using refs Some by simp_all
    have ir: "Index ?rem '')'' = int (length ('' ('' @ names))"
    proof -
      have "?rem = ('' ('' @ names) @ CHR '')'' # ?rest" by simp
      moreover have "CHR '')'' \<notin> set ('' ('' @ names)" using nn by simp
      ultimately show ?thesis using Index_hit by metis
    qed
    have jr: "Index ?rem ''('' = 1" by simp
    have dr: "drop (nat (int (length ('' ('' @ names)) + 1)) ?rem = ?rest"
    proof -
      have "nat (int (length ('' ('' @ names)) + 1) = length ('' ('' @ names @ '')'')"
        by simp
      then show ?thesis by (metis append_assoc append_eq_conv_conj)
    qed
    have msg: "TrimSpace ?rest = TrimLeftSpace subject @ '' ['' @ author @ '']''"
      using TrimSpace_before_tag [OF ts] .
    have li: "LastIndex (TrimLeftSpace subject @ '' ['' @ author @ '']'') '' [''
                = int (length (TrimLeftSpace subject))"
      using LastIndex_author_tag [OF auth] .
    have cond: "Index ?rem '')'' \<noteq> - 1 \<and> Index ?rem ''('' \<noteq> - 1
                   \<and> Index ?rem ''('' < Index ?rem '')''"
      unfolding ir jr by simp
    show ?thesis
      unfolding line parse_line_fields [OF fields]
      using cond
      by (simp only: Let_def ir dr msg if_True) (use li in \<open>simp add: TrimSpace_left\<close>)
  qed
  have "parseGitLog ?line = [\<lparr>Hash = hash, Message = m,
       Date = date @ '' '' @ time @ '' '' @ zone, Files = []\<rparr>]"
    by (simp add: parseGitLog_def List.map_filter_def sp pm)
  moreover have "m = TrimSpace subject"
    if "CHR ''('' \<notin> set subject \<and> CHR '')'' \<notin> set subject
        \<and> (case refs of
              None \<Rightarrow> \<not> paren_pair author
            | Some names \<Rightarrow> CHR '')'' \<notin> set names \<and> TrimSpace subject \<noteq> [])
        \<and> \<not> Contains author '' [''"
    using pl [of] that pm by simp
  ultimately show ?thesis by blast
qed

theorem C7_parse_git_log_line_witness:
  "parseGitLog
     (git_log_line ''2024-01-01'' ''10:00:00'' ''+0000'' ''abc123'' (Some ''HEAD -> main'')
        ''fix [x] typo'' ''dependabot[bot]'')
   = [\<lparr>Hash = ''abc123'', Message = ''fix [x] typo'',
       Date = ''2024-01-01 10:00:00 +0000'', Files = []\<rparr>]"
proof -
  have f: "CHR '' '' \<notin> set ''2024-01-01''" "CHR '' '' \<notin> set ''10:00:00''"
    "CHR '' '' \<notin> set ''+0000''" "CHR '' '' \<notin> set ''abc123''" by simp_all
  have l: "CHR 0x0A \<notin> set (git_log_line ''2024-01-01'' ''10:00:00'' ''+0000'' ''abc123''
       (Some ''HEAD -> main'') ''fix [x] typo'' ''dependabot[bot]'')"
    by (simp add: git_log_line_def)
  have t: "TrimSpace ''fix [x] typo'' = ''fix [x] typo''"
    by (simp add: trim_eval)
  have c: "CHR ''('' \<notin> set ''fix [x] typo'' \<and> CHR '')'' \<notin> set ''fix [x] typo''
     \<and> (case Some ''HEAD -> main'' of
             None \<Rightarrow> \<not> paren_pair ''dependabot[bot]''
           | Some names \<Rightarrow> CHR '')'' \<notin> set names \<and> TrimSpace ''fix [x] typo'' \<noteq> [])
     \<and> \<not> Contains ''dependabot[bot]'' '' [''"
    by (simp add: t Contains_def)
  from C7_parse_git_log_line [OF f l] c show ?thesis by (auto simp add: t)
qed

subsection \<open>File content: the path check and the MIME type\<close>

text \<open>
  C1 fails on the code. The handler tests that the joined path has the project path as
  a string prefix, not that it lies under the project directory: a sibling directory
  whose name continues the project's name passes the test. For the project \<open>p1\<close> and
  the path \<open>../p1-secrets/key.pem\<close> the resolved path is outside \<open>/workspace/p1\<close>,
  and the handler answers with the file's bytes.
\<close>

theorem C1_sibling_directory_escapes_check:
  "\<not> inside_dir (getProjectPath ''/workspace'' ''p1'')
        (Join [getProjectPath ''/workspace'' ''p1'', Clean (FromSlash ''../p1-secrets/key.pem'')])
   \<and> handleGetFileContent ''/workspace''
         (\<lambda>p. if p = ''/workspace/p1-secrets/key.pem'' then FsFile (Some ''KEY'')
              else FsNotExist)
         (\<lambda>c. ''text/plain; charset=utf-8'') (\<lambda>e. []) ''p1'' ''../p1-secrets/key.pem''
       = Ok \<lparr>Content = ''S0VZ'', MimeType = ''text/plain; charset=utf-8''\<rparr>"
  by (simp add: handleGetFileContent_def getProjectPath_def Clean_def FromSlash_def is_sep_def
      b64_digit_def Let_def inside_dir_def HasSuffix_def)


text \<open>
  C9 fails on the code. \<open>http.DetectContentType\<close> never returns the empty string (it
  answers \<open>application/octet-stream\<close> when it recognises nothing), and the handler
  falls back to the extension only on the empty string. So whatever \<open>TypeByExtension\<close>
  would say, a successful answer carries the base64 of the file's bytes and the type
  sniffed from them: the answer does not depend on the extension table.
\<close>

theorem C9_extension_fallback_unreachable:
  assumes "\<forall>content. DetectContentType content \<noteq> []"
  shows "handleGetFileContent ws fs DetectContentType byExt pid path
           = handleGetFileContent ws fs DetectContentType byExt' pid path
         \<and> (\<forall>resp. handleGetFileContent ws fs DetectContentType byExt pid path = Ok resp \<longrightarrow>
               (\<exists>content.
                  fs (Join [getProjectPath ws pid, Clean (FromSlash path)])
                    = FsFile (Some content)
                  \<and> Content resp = base64_encode content
                  \<and> MimeType resp = DetectContentType content))"
proof -
  let ?full = "Join [getProjectPath ws pid, Clean (FromSlash path)]"
  have sniff: "\<And>c. DetectContentType c \<noteq> []" using assms by simp
  show ?thesis
  proof (cases "fs ?full")
    case (FsFile r)
    then show ?thesis
      by (cases r) (simp_all add: handleGetFileContent_def Let_def sniff del: Join.simps)
  qed (simp_all add: handleGetFileContent_def Let_def del: Join.simps)
qed

theorem C9_extension_fallback_unreachable_witness:
  "handleGetFileContent ''/workspace''
     (\<lambda>p. if p = ''/workspace/p1/data.json'' then FsFile (Some [CHR 0x00, CHR 0x01])
          else FsNotExist)
     (\<lambda>c. ''application/octet-stream'')
     (\<lambda>e. if e = ''.json'' then ''application/json'' else [])
     ''p1'' ''data.json''
   = Ok \<lparr>Content = ''AAE='', MimeType = ''application/octet-stream''\<rparr>"
proof -
  let ?fs = "\<lambda>p. if p = ''/workspace/p1/data.json'' then FsFile (Some [CHR 0x00, CHR 0x01])
          else FsNotExist"
  let ?sniff = "\<lambda>c::string. ''application/octet-stream''"
  let ?ext = "\<lambda>e. if e = ''.json'' then ''application/json'' else []"
  have contract: "\<forall>content. ?sniff content \<noteq> []" by simp
  have "handleGetFileContent ''/workspace'' ?fs ?sniff ?ext ''p1'' ''data.json''
          = handleGetFileContent ''/workspace'' ?fs ?sniff (\<lambda>e. []) ''p1'' ''data.json''"
    using C9_extension_fallback_unreachable [OF contract, of "''/workspace''" ?fs ?ext
        "''p1''" "''data.json''" "\<lambda>e. []"] by (rule conjunct1)
  also have "\<dots> = Ok \<lparr>Content = ''AAE='', MimeType = ''application/octet-stream''\<rparr>"
    by (simp add: handleGetFileContent_def getProjectPath_def Clean_def FromSlash_def
        is_sep_def b64_digit_def Let_def)
  finally show ?thesis .
qed

subsection \<open>Script injection into the head\<close>

lemma node_at_append:
  "node_at (p @ r) n = (case node_at p n of None \<Rightarrow> None | Some m \<Rightarrow> node_at r m)"
proof (induction p arbitrary: n)
  case Nil
  then show ?case by simp
next
  case (Cons i p)
  then show ?case by (cases n) simp
qed

lemma find_tag_keeps:
  "found \<noteq> None \<Longrightarrow> find_tag tag n here found \<noteq> None"
  "found \<noteq> None \<Longrightarrow> find_tag_children tag cs here i found \<noteq> None"
  by (induction tag n here found and tag cs here i found
      rule: find_tag_find_tag_children.induct) auto

lemma find_tag_none:
  "find_tag tag n here None = None \<longleftrightarrow> count_tag tag n = 0"
  "find_tag_children tag cs here i None = None \<longleftrightarrow> (\<forall>c \<in> set cs. count_tag tag c = 0)"
proof (induction tag n here "None :: nat list option" and tag cs here i "None :: nat list option"
      rule: find_tag_find_tag_children.induct)
  case (1 tag ty d a cs here)
  then show ?case by auto
next
  case (2 tag here i)
  then show ?case by simp
next
  case (3 tag c cs here i)
  show ?case
  proof (cases "find_tag tag c (here @ [i]) None")
    case None
    then show ?thesis using 3 by auto
  next
    case (Some p)
    then have "find_tag_children tag cs here (Suc i) (find_tag tag c (here @ [i]) None) \<noteq> None"
      by (intro find_tag_keeps(2)) simp
    moreover have "count_tag tag c \<noteq> 0" using Some 3(1) by auto
    ultimately show ?thesis by auto
  qed
qed


lemma find_tag_sound:
  "find_tag tag n here found = Some p \<Longrightarrow>
     found = Some p \<or> (\<exists>q. p = here @ q \<and> tag_at tag q n)"
  "find_tag_children tag cs here i found = Some p \<Longrightarrow>
     found = Some p \<or> (\<exists>j q. j < length cs \<and> p = here @ (i + j) # q \<and> tag_at tag q (cs ! j))"
proof (induction tag n here found and tag cs here i found
      arbitrary: p and p rule: find_tag_find_tag_children.induct)
  case (1 tag ty d a cs here found)
  show ?case
  proof (cases "ty = ElementNode \<and> d = tag")
    case True
    then have "p = here" using 1(2) by simp
    moreover have "tag_at tag [] (HNode ty d a cs)" using True by (simp add: tag_at_def)
    ultimately show ?thesis by auto
  next
    case False
    then have "find_tag_children tag cs here 0 found = Some p" using 1(2) by auto
    from 1(1) [OF False this] show ?thesis
    proof
      assume "found = Some p"
      then show ?thesis by simp
    next
      assume "\<exists>j q. j < length cs \<and> p = here @ (0 + j) # q \<and> tag_at tag q (cs ! j)"
      then obtain j q where j: "j < length cs" and p: "p = here @ j # q"
        and t: "tag_at tag q (cs ! j)" by auto
      have "tag_at tag (j # q) (HNode ty d a cs)" using j t by (simp add: tag_at_def)
      then show ?thesis using p by auto
    qed
  qed
next
  case (2 tag here i found)
  then show ?case by simp
next
  case (3 tag c cs here i found)
  from 3(3) have "find_tag_children tag cs here (Suc i) (find_tag tag c (here @ [i]) found) = Some p"
    by simp
  from 3(2) [OF this] show ?case
  proof
    assume f: "find_tag tag c (here @ [i]) found = Some p"
    from 3(1) [OF f] show ?thesis
    proof
      assume "found = Some p"
      then show ?thesis by simp
    next
      assume "\<exists>q. p = (here @ [i]) @ q \<and> tag_at tag q c"
      then obtain q where "p = here @ (i + 0) # q" "tag_at tag q ((c # cs) ! 0)" by auto
      then show ?thesis by (metis length_greater_0_conv list.distinct(1))
    qed
  next
    assume "\<exists>j q. j < length cs \<and> p = here @ (Suc i + j) # q \<and> tag_at tag q (cs ! j)"
    then obtain j q where j: "j < length cs" and p: "p = here @ (Suc i + j) # q"
      and t: "tag_at tag q (cs ! j)" by auto
    have "Suc j < length (c # cs)" "p = here @ (i + Suc j) # q" "tag_at tag q ((c # cs) ! Suc j)"
      using j p t by simp_all
    then show ?thesis by blast
  qed
qed

lemma find_tag_root:
  assumes "find_tag tag doc [] None = Some p"
  shows "tag_at tag p doc"
  using find_tag_sound(1) [OF assms] by auto

lemma sum_list_map_update:
  fixes g :: "'a \<Rightarrow> nat"
  assumes "i < length cs"
  shows "sum_list (map g (cs[i := x])) + g (cs ! i) = sum_list (map g cs) + g x"
  using assms
proof (induction cs arbitrary: i)
  case Nil
  then show ?case by simp
next
  case (Cons c cs)
  then show ?case by (cases i) auto
qed

lemma count_update:
  "node_at p doc = Some n \<Longrightarrow>
     count_tag tag (update_at p f doc) + count_tag tag n = count_tag tag doc + count_tag tag (f n)"
proof (induction p arbitrary: doc)
  case Nil
  then show ?case by simp
next
  case (Cons i p)
  obtain ty d a cs where doc: "doc = HNode ty d a cs" by (cases doc)
  from Cons.prems doc have i: "i < length cs" and at: "node_at p (cs ! i) = Some n"
    by (auto split: if_splits)
  have ih: "count_tag tag (update_at p f (cs ! i)) + count_tag tag n
              = count_tag tag (cs ! i) + count_tag tag (f n)"
    using Cons.IH [OF at] .
  have "sum_list (map (count_tag tag) (cs[i := update_at p f (cs ! i)])) + count_tag tag (cs ! i)
          = sum_list (map (count_tag tag) cs) + count_tag tag (update_at p f (cs ! i))"
    using i by (rule sum_list_map_update)
  then show ?case using ih i doc by simp
qed

lemma node_at_update:
  "node_at p doc = Some n \<Longrightarrow> node_at p (update_at p f doc) = Some (f n)"
proof (induction p arbitrary: doc)
  case Nil
  then show ?case by simp
next
  case (Cons i p)
  obtain ty d a cs where doc: "doc = HNode ty d a cs" by (cases doc)
  from Cons.prems doc have i: "i < length cs" and at: "node_at p (cs ! i) = Some n"
    by (auto split: if_splits)
  show ?case using Cons.IH [OF at] i doc by simp
qed

lemma update_update: "update_at p g (update_at p f doc) = update_at p (\<lambda>n. g (f n)) doc"
proof (induction p arbitrary: doc)
  case Nil
  then show ?case by simp
next
  case (Cons i p)
  obtain ty d a cs where doc: "doc = HNode ty d a cs" by (cases doc)
  show ?case using Cons.IH doc by simp
qed

lemma update_at_same: "(\<And>n. f n = n) \<Longrightarrow> update_at p f doc = doc"
proof (induction p arbitrary: doc)
  case Nil
  then show ?case by simp
next
  case (Cons i p)
  obtain ty d a cs where doc: "doc = HNode ty d a cs" by (cases doc)
  show ?case using Cons doc by simp
qed

lemma inject_all_first:
  assumes "\<forall>s \<in> set scripts. sc_InsertFirst s"
  shows "foldl (inject_script head) (update_at head (prepend_kids xs) doc) scripts
           = update_at head (prepend_kids (rev (map script_node scripts) @ xs)) doc"
  using assms
proof (induction scripts arbitrary: xs)
  case Nil
  then show ?case by simp
next
  case (Cons s scripts)
  have "inject_script head (update_at head (prepend_kids xs) doc) s
          = update_at head (prepend_kids (script_node s # xs)) doc"
    using Cons.prems
    by (simp add: inject_script_def update_update insert_first_child_def
        prepend_kids_def [abs_def])
  then show ?case using Cons.IH [of "script_node s # xs"] Cons.prems by simp
qed

lemma inject_all_first':
  assumes "\<forall>s \<in> set scripts. sc_InsertFirst s"
  shows "foldl (inject_script head) doc scripts
           = update_at head (prepend_kids (rev (map script_node scripts))) doc"
proof -
  have "update_at head (prepend_kids []) doc = doc"
    by (rule update_at_same) (simp add: prepend_kids_def)
  then show ?thesis using inject_all_first [OF assms, of head "[]" doc] by simp
qed

lemma count_script_node: "tag \<noteq> ''script'' \<Longrightarrow> count_tag tag (script_node s) = 0"
  by (simp add: script_node_def)

lemma count_prepend:
  "count_tag tag (prepend_kids xs n) = count_tag tag n + sum_list (map (count_tag tag) xs)"
  by (cases n) (simp add: prepend_kids_def)

lemma update_at_append:
  "update_at (p @ r) f doc = update_at p (update_at r f) doc"
proof (induction p arbitrary: doc)
  case Nil
  then show ?case by simp
next
  case (Cons i p)
  obtain ty d a cs where doc: "doc = HNode ty d a cs" by (cases doc)
  show ?case using Cons.IH doc by simp
qed

lemma sum_count_scripts:
  "sum_list (map (count_tag ''head'') (rev (map script_node scripts))) = 0"
  by (induction scripts) (simp_all add: count_script_node)

lemma inject_tree_existing:
  assumes found: "find_tag ''head'' doc [] None = Some h"
    and first: "\<forall>s \<in> set scripts. sc_InsertFirst s"
  shows "\<exists>doc' a old. inject_tree scripts doc = Inr doc'
           \<and> node_at h doc = Some (HNode ElementNode ''head'' a old)
           \<and> node_at h doc' = Some (HNode ElementNode ''head'' a (rev (map script_node scripts) @ old))
           \<and> count_tag ''head'' doc' = count_tag ''head'' doc"
proof -
  let ?S = "rev (map script_node scripts)"
  let ?doc' = "update_at h (prepend_kids ?S) doc"
  from find_tag_root [OF found] obtain a old
    where at: "node_at h doc = Some (HNode ElementNode ''head'' a old)"
    by (auto simp: tag_at_def)
  have inj: "inject_tree scripts doc = Inr ?doc'"
    using found by (simp add: inject_tree_def ensureHead_def inject_all_first' [OF first])
  have at': "node_at h ?doc' = Some (HNode ElementNode ''head'' a (?S @ old))"
    using node_at_update [OF at, of "prepend_kids ?S"] by (simp add: prepend_kids_def)
  have "count_tag ''head'' ?doc' + count_tag ''head'' (HNode ElementNode ''head'' a old)
          = count_tag ''head'' doc
            + count_tag ''head'' (prepend_kids ?S (HNode ElementNode ''head'' a old))"
    using at by (rule count_update)
  then have cnt: "count_tag ''head'' ?doc' = count_tag ''head'' doc"
    unfolding count_prepend sum_count_scripts by simp
  show ?thesis using inj at at' cnt by blast
qed

lemma inject_tree_created:
  assumes nohead: "find_tag ''head'' doc [] None = None"
    and html: "find_tag ''html'' doc [] None = Some q"
    and first: "\<forall>s \<in> set scripts. sc_InsertFirst s"
  shows "\<exists>doc' a cs. inject_tree scripts doc = Inr doc'
           \<and> node_at q doc' = Some (HNode ElementNode ''html'' a
                 (HNode ElementNode ''head'' [] (rev (map script_node scripts)) # cs))
           \<and> count_tag ''head'' doc' = 1"
proof -
  let ?S = "rev (map script_node scripts)"
  let ?new = "HNode ElementNode ''head'' [] []"
  let ?f = "\<lambda>n. update_at [0] (prepend_kids ?S) (insert_first_child ?new n)"
  let ?doc' = "update_at q ?f doc"
  from find_tag_root [OF html] obtain a cs
    where at: "node_at q doc = Some (HNode ElementNode ''html'' a cs)"
    by (auto simp: tag_at_def)
  have zero: "count_tag ''head'' doc = 0" using nohead by (simp add: find_tag_none)
  have "inject_tree scripts doc
          = Inr (update_at (q @ [0]) (prepend_kids ?S) (update_at q (insert_first_child ?new) doc))"
    using nohead html
    by (simp add: inject_tree_def ensureHead_def inject_all_first' [OF first])
  then have inj: "inject_tree scripts doc = Inr ?doc'"
    by (simp add: update_at_append update_update)
  have fval: "?f (HNode ElementNode ''html'' a cs)
                = HNode ElementNode ''html'' a (HNode ElementNode ''head'' [] ?S # cs)"
    by (simp add: insert_first_child_def prepend_kids_def)
  have at': "node_at q ?doc' = Some (HNode ElementNode ''html'' a
                 (HNode ElementNode ''head'' [] ?S # cs))"
    using node_at_update [OF at, of ?f] unfolding fval .
  have "count_tag ''head'' ?doc' + count_tag ''head'' (HNode ElementNode ''html'' a cs)
          = count_tag ''head'' doc + count_tag ''head'' (?f (HNode ElementNode ''html'' a cs))"
    using at by (rule count_update)
  then have cnt: "count_tag ''head'' ?doc' = 1"
    unfolding fval using zero sum_count_scripts [of scripts] by simp
  show ?thesis using inj at' cnt by blast
qed

lemma inject_tree_fails:
  "inject_tree scripts doc = Inl e \<longleftrightarrow>
     e = NoHtmlTag \<and> count_tag ''head'' doc = 0 \<and> count_tag ''html'' doc = 0"
proof (cases "find_tag ''head'' doc [] None")
  case None
  note nohead = this
  then have z: "count_tag ''head'' doc = 0" by (simp add: find_tag_none)
  show ?thesis
  proof (cases "find_tag ''html'' doc [] None")
    case None
    then have "count_tag ''html'' doc = 0" by (simp add: find_tag_none)
    then show ?thesis using None nohead z by (auto simp: inject_tree_def ensureHead_def)
  next
    case (Some q)
    then have "count_tag ''html'' doc \<noteq> 0" using find_tag_none(1) [of "''html''" doc "[]"] by simp
    then show ?thesis using Some nohead by (simp add: inject_tree_def ensureHead_def)
  qed
next
  case (Some h)
  then have "count_tag ''head'' doc \<noteq> 0" using find_tag_none(1) [of "''head''" doc "[]"] by simp
  then show ?thesis using Some by (simp add: inject_tree_def ensureHead_def)
qed

text \<open>
  C8. Let the parser return a document with at most one \<open>head\<close> element (the HTML5
  tree construction that \<open>html.Parse\<close> implements gives every document exactly one),
  and let every registered script have \<open>insert_first\<close> set. Then the injector fails with
  "no html tag" exactly when the document has neither a \<open>head\<close> nor an \<open>html\<close>
  element; and whenever it succeeds, the tree it renders has exactly one \<open>head\<close>, the
  existing one or a new one that is the first child of \<open>html\<close>, whose first children are
  the injected \<open>script\<close> elements, contiguous and in reverse registration order,
  followed by the head's earlier children.
\<close>

theorem C8_scripts_first_in_single_head:
  assumes parsed: "parse content = Some doc"
    and parser: "count_tag ''head'' doc \<le> 1"
    and first: "\<forall>s \<in> set scripts. sc_InsertFirst s"
  shows "(InjectIntoHTML parse render scripts content = Inl NoHtmlTag
            \<longleftrightarrow> count_tag ''head'' doc = 0 \<and> count_tag ''html'' doc = 0)
       \<and> (\<forall>out. InjectIntoHTML parse render scripts content = Inr out \<longrightarrow>
             (\<exists>doc' p a old.
                inject_tree scripts doc = Inr doc' \<and> render doc' = Some out
                \<and> count_tag ''head'' doc' = 1
                \<and> node_at p doc'
                    = Some (HNode ElementNode ''head'' a (rev (map script_node scripts) @ old))
                \<and> (count_tag ''head'' doc = 1 \<longrightarrow>
                      node_at p doc = Some (HNode ElementNode ''head'' a old))
                \<and> (count_tag ''head'' doc = 0 \<longrightarrow>
                      old = [] \<and> (\<exists>q b cs. p = q @ [0] \<and>
                         node_at q doc' = Some (HNode ElementNode ''html'' b
                           (HNode ElementNode ''head'' a (rev (map script_node scripts)) # cs))))))"
proof (intro conjI allI impI)
  show "InjectIntoHTML parse render scripts content = Inl NoHtmlTag
            \<longleftrightarrow> count_tag ''head'' doc = 0 \<and> count_tag ''html'' doc = 0"
  proof (cases "inject_tree scripts doc")
    case (Inl e)
    then show ?thesis using parsed inject_tree_fails [of scripts doc e]
      by (auto simp: InjectIntoHTML_def)
  next
    case (Inr doc')
    then have "\<not> (count_tag ''head'' doc = 0 \<and> count_tag ''html'' doc = 0)"
      using inject_tree_fails [of scripts doc NoHtmlTag] by simp
    then show ?thesis using parsed Inr
      by (auto simp: InjectIntoHTML_def split: option.splits)
  qed
next
  fix out
  assume ok: "InjectIntoHTML parse render scripts content = Inr out"
  then obtain d where inj: "inject_tree scripts doc = Inr d" and rnd: "render d = Some out"
    using parsed by (auto simp: InjectIntoHTML_def split: sum.splits option.splits)
  let ?S = "rev (map script_node scripts)"
  show "\<exists>doc' p a old.
                inject_tree scripts doc = Inr doc' \<and> render doc' = Some out
                \<and> count_tag ''head'' doc' = 1
                \<and> node_at p doc' = Some (HNode ElementNode ''head'' a (?S @ old))
                \<and> (count_tag ''head'' doc = 1 \<longrightarrow>
                      node_at p doc = Some (HNode ElementNode ''head'' a old))
                \<and> (count_tag ''head'' doc = 0 \<longrightarrow>
                      old = [] \<and> (\<exists>q b cs. p = q @ [0] \<and>
                         node_at q doc' = Some (HNode ElementNode ''html'' b
                           (HNode ElementNode ''head'' a ?S # cs))))"
  proof (cases "find_tag ''head'' doc [] None")
    case (Some h)
    then have nz: "count_tag ''head'' doc \<noteq> 0"
      using find_tag_none(1) [of "''head''" doc "[]"] by simp
    then have one: "count_tag ''head'' doc = 1" using parser by simp
    from inject_tree_existing [OF Some first] obtain doc' a old
      where e1: "inject_tree scripts doc = Inr doc'"
        and e2: "node_at h doc = Some (HNode ElementNode ''head'' a old)"
        and e3: "node_at h doc' = Some (HNode ElementNode ''head'' a (?S @ old))"
        and e4: "count_tag ''head'' doc' = count_tag ''head'' doc" by blast
    have dd: "doc' = d" using e1 inj by simp
    show ?thesis
      apply (rule exI [where x = doc'], rule exI [where x = h], rule exI [where x = a],
          rule exI [where x = old])
      using e1 e2 e3 e4 one rnd dd by simp
  next
    case None
    then have zero: "count_tag ''head'' doc = 0" by (simp add: find_tag_none)
    have "find_tag ''html'' doc [] None \<noteq> None"
    proof
      assume "find_tag ''html'' doc [] None = None"
      then have "inject_tree scripts doc = Inl NoHtmlTag"
        using None by (simp add: inject_tree_def ensureHead_def)
      then show False using inj by simp
    qed
    then obtain q where q: "find_tag ''html'' doc [] None = Some q" by auto
    from inject_tree_created [OF None q first] obtain doc' b cs
      where c1: "inject_tree scripts doc = Inr doc'"
        and c2: "node_at q doc' = Some (HNode ElementNode ''html'' b
                 (HNode ElementNode ''head'' [] ?S # cs))"
        and c3: "count_tag ''head'' doc' = 1" by blast
    have dd: "doc' = d" using c1 inj by simp
    have c4: "node_at (q @ [0]) doc' = Some (HNode ElementNode ''head'' [] (?S @ []))"
      using c2 by (simp add: node_at_append)
    show ?thesis
      apply (rule exI [where x = doc'], rule exI [where x = "q @ [0]"],
          rule exI [where x = "[]"], rule exI [where x = "[]"])
      using c1 c2 c3 c4 zero rnd dd by auto
  qed
qed

theorem C8_scripts_first_in_single_head_witness:
  "\<exists>doc' p a old.
     inject_tree
       [\<lparr>sc_Content = ''heartbeat()'', sc_Attributes = [], sc_InsertFirst = True\<rparr>,
        \<lparr>sc_Content = ''navigation()'', sc_Attributes = [], sc_InsertFirst = True\<rparr>]
       (HNode DocumentNode [] []
          [HNode ElementNode ''html'' []
             [HNode ElementNode ''head'' [] [HNode ElementNode ''title'' [] []],
              HNode ElementNode ''body'' [] []]]) = Inr doc'
     \<and> count_tag ''head'' doc' = 1
     \<and> node_at p doc' = Some (HNode ElementNode ''head'' a
          ([HNode ElementNode ''script'' [] [HNode TextNode ''navigation()'' [] []],
            HNode ElementNode ''script'' [] [HNode TextNode ''heartbeat()'' [] []]] @ old))"
proof -
  let ?hb = "\<lparr>sc_Content = ''heartbeat()'', sc_Attributes = [], sc_InsertFirst = True\<rparr>"
  let ?nav = "\<lparr>sc_Content = ''navigation()'', sc_Attributes = [], sc_InsertFirst = True\<rparr>"
  let ?doc = "HNode DocumentNode [] []
          [HNode ElementNode ''html'' []
             [HNode ElementNode ''head'' [] [HNode ElementNode ''title'' [] []],
              HNode ElementNode ''body'' [] []]]"
  let ?parse = "\<lambda>c::string. Some ?doc"
  let ?render = "\<lambda>d::html_node. Some ''rendered''"
  have parsed: "?parse ''<html><head><title></title></head></html>'' = Some ?doc" by simp
  have parser: "count_tag ''head'' ?doc \<le> 1" by simp
  have first: "\<forall>s \<in> set [?hb, ?nav]. sc_InsertFirst s" by simp
  have ok: "InjectIntoHTML ?parse ?render [?hb, ?nav]
              ''<html><head><title></title></head></html>'' = Inr ''rendered''"
    by (simp add: InjectIntoHTML_def inject_tree_def ensureHead_def)
  have sn: "rev (map script_node [?hb, ?nav])
      = [HNode ElementNode ''script'' [] [HNode TextNode ''navigation()'' [] []],
         HNode ElementNode ''script'' [] [HNode TextNode ''heartbeat()'' [] []]]"
    by (simp add: script_node_def trim_eval)
  from C8_scripts_first_in_single_head [where parse = ?parse and render = ?render
      and scripts = "[?hb, ?nav]" and doc = ?doc, OF parsed parser first] ok
  obtain doc' p a old where
    a: "inject_tree [?hb, ?nav] ?doc = Inr doc'"
    and b: "count_tag ''head'' doc' = 1"
    and c: "node_at p doc' = Some (HNode ElementNode ''head'' a
              (rev (map script_node [?hb, ?nav]) @ old))"
    by blast
  show ?thesis
    apply (rule exI [where x = doc'], rule exI [where x = p], rule exI [where x = a],
        rule exI [where x = old])
    using a b c unfolding sn by simp
qed

subsection \<open>Supervisor and orchestrator\<close>

lemma same_support_refl: "same_support w w"
  by (simp add: same_support_def)

lemma same_support_trans: "same_support a b \<Longrightarrow> same_support b c \<Longrightarrow> same_support a c"
  by (simp add: same_support_def)

lemma same_support_wf: "same_support w w' \<Longrightarrow> wf_world w \<Longrightarrow> wf_world w'"
  by (simp add: same_support_def wf_world_def)

lemma process_exits_support: "same_support w (process_exits pid w)"
  by (auto simp: same_support_def process_exits_def split: option.splits)

lemma process_exits_servers: "servers (process_exits pid w) = servers w"
  by (simp add: process_exits_def split: option.splits)

lemma on_server_support: "same_support w (on_server sid f w)"
  by (auto simp: same_support_def on_server_def split: option.splits)

lemma stop_proxy_opt_support: "same_support w (stop_proxy_opt h w)"
  by (cases h) (simp_all add: stop_proxy_opt_def same_support_refl on_server_support)

lemma on_server_procs: "procs (on_server sid f w) = procs w"
  by (simp add: on_server_def split: option.splits)

lemma on_server_stop_closed:
  "servers (on_server sid proxy_Stop w) sid = Some srv \<Longrightarrow> server srv = Closed"
  by (auto simp: on_server_def proxy_Stop_def split: option.splits)

lemma on_server_other:
  "sid' \<noteq> sid \<Longrightarrow> servers (on_server sid f w) sid' = servers w sid'"
  by (simp add: on_server_def split: option.splits)

lemma StopCurrentProcess_support:
  assumes "StopCurrentProcess w s = Some (b, w', s')"
  shows "same_support w w'" and "servers w' = servers w"
    and "currentCmd s' = None \<or> currentCmd s' = currentCmd s"
proof -
  have "same_support w w' \<and> servers w' = servers w
        \<and> (currentCmd s' = None \<or> currentCmd s' = currentCmd s)"
    using assms
    by (auto simp: StopCurrentProcess_def mutex_lock_def mutex_unlock_def Let_def
        same_support_refl process_exits_support process_exits_servers
        split: if_splits option.splits stop_response.splits)
  then show "same_support w w'" and "servers w' = servers w"
    and "currentCmd s' = None \<or> currentCmd s' = currentCmd s" by simp_all
qed

lemma StopCurrentProcess_current:
  assumes "StopCurrentProcess w s = Some (b, w', s')"
    and "currentCmd s = Some pid" and "procs w pid = Some pr"
  shows "\<exists>pr'. procs w' pid = Some pr'
           \<and> (\<not> alive pr' \<or> response pr' = KillFails \<or> response pr' = SurvivesKill)"
  using assms
  by (auto simp: StopCurrentProcess_def mutex_lock_def mutex_unlock_def Let_def
      process_exits_def split: if_splits option.splits stop_response.splits)

lemma StopProject_support:
  assumes "StopProject env w orch = Some (b, w', orch')"
  shows "same_support w w'"
proof -
  let ?h = "proxyServer orch"
  let ?w1 = "stop_proxy_opt ?h w"
  from assms obtain success w2 sup2
    where first: "StopCurrentProcess ?w1 (supervisor (orch\<lparr>proxyServer := None\<rparr>))
                    = Some (success, w2, sup2)"
    by (auto simp: StopProject_def Let_def split: option.splits)
  have s12: "same_support w w2"
    using same_support_trans [OF stop_proxy_opt_support StopCurrentProcess_support(1) [OF first]] .
  show ?thesis
  proof (cases "stop_deadline_hit env")
    case False
    then have "w' = w2" using assms first by (simp add: StopProject_def Let_def)
    then show ?thesis using s12 by simp
  next
    case True
    then obtain again sup3
      where second: "StopCurrentProcess (stop_proxy_opt ?h w2) sup2 = Some (again, w', sup3)"
      using assms first by (auto simp: StopProject_def Let_def split: option.splits)
    have "same_support w2 w'"
      using same_support_trans [OF stop_proxy_opt_support StopCurrentProcess_support(1) [OF second]] .
    then show ?thesis using s12 same_support_trans by blast
  qed
qed

lemma StopCurrentProcess_locked: "cmdMutex s \<Longrightarrow> StopCurrentProcess w s = None"
  by (simp add: StopCurrentProcess_def mutex_lock_def)

lemma StartDevServer_returns:
  assumes "StartDevServer env p w s = Some res"
  shows "currentCmd s = None" and "\<not> cmdMutex s"
    and "res = spawn_dev_server env p w (s\<lparr>cmdMutex := True\<rparr>)"
proof -
  have free: "\<not> cmdMutex s" using assms by (auto simp: StartDevServer_def mutex_lock_def)
  then have l: "mutex_lock s = Some (s\<lparr>cmdMutex := True\<rparr>)" by (simp add: mutex_lock_def)
  have blocked: "StopCurrentProcess w (s\<lparr>cmdMutex := True\<rparr>) = None"
    by (rule StopCurrentProcess_locked) simp
  show "\<not> cmdMutex s" by (rule free)
  show "currentCmd s = None"
    using assms l blocked by (auto simp: StartDevServer_def split: if_splits)
  then show "res = spawn_dev_server env p w (s\<lparr>cmdMutex := True\<rparr>)"
    using assms l by (simp add: StartDevServer_def)
qed

lemma no_new_when_same_support:
  assumes "same_support w w'"
  shows "(\<forall>sid srv. servers w sid = None \<and> servers w' sid = Some srv \<longrightarrow> server srv = Closed)"
    and "(\<forall>pid pr. procs w pid = None \<and> procs w' pid = Some pr \<longrightarrow>
            \<not> alive pr \<or> response pr = KillFails \<or> response pr = SurvivesKill)"
proof -
  have a: "\<And>sid. servers w sid = None \<Longrightarrow> servers w' sid = None"
    and b: "\<And>pid. procs w pid = None \<Longrightarrow> procs w' pid = None"
    using assms by (simp_all add: same_support_def)
  show "(\<forall>sid srv. servers w sid = None \<and> servers w' sid = Some srv \<longrightarrow> server srv = Closed)"
    using a by fastforce
  show "(\<forall>pid pr. procs w pid = None \<and> procs w' pid = Some pr \<longrightarrow>
            \<not> alive pr \<or> response pr = KillFails \<or> response pr = SurvivesKill)"
    using b by fastforce
qed

lemma restart_body_failed:
  assumes wf: "wf_world w"
    and run: "restart_body env lp tp w orch = Some (Inl err, w', orch')"
  shows "(\<forall>sid srv. servers w sid = None \<and> servers w' sid = Some srv \<longrightarrow> server srv = Closed)
       \<and> (\<forall>pid pr. procs w pid = None \<and> procs w' pid = Some pr \<longrightarrow>
            \<not> alive pr \<or> response pr = KillFails \<or> response pr = SurvivesKill)"
proof -
  from run obtain stopped w1 o1 where sp: "StopProject env w orch = Some (stopped, w1, o1)"
    by (auto simp: restart_body_def split: option.splits)
  have s1: "same_support w w1" using sp by (rule StopProject_support)
  have wf1: "wf_world w1" using s1 wf by (rule same_support_wf)
  show ?thesis
  proof (cases "node_modules_missing env \<and> \<not> install_succeeds env")
    case True
    then have "w' = w1" using run sp by (simp add: restart_body_def Let_def)
    then show ?thesis using no_new_when_same_support [OF s1] by simp
  next
    case False
    let ?sid = "next_server w1"
    let ?created = "SetLoadingMode True (NewProxyServer (statics env) tp)"
    let ?o3 = "o1\<lparr>o_appPort := tp, proxyServer := Some ?sid\<rparr>"
    let ?w2 = "w1\<lparr>servers := (servers w1)(?sid \<mapsto> proxy_Start (listen_ok env) ?created),
                    next_server := Suc ?sid\<rparr>"
    from run sp False obtain r w3 sup3
      where sd: "StartDevServer env tp ?w2 (supervisor ?o3) = Some (r, w3, sup3)"
      by (auto simp: restart_body_def Let_def split: option.splits)
    have spawn_eq: "(r, w3, sup3)
        = spawn_dev_server env tp ?w2 ((supervisor ?o3)\<lparr>cmdMutex := True\<rparr>)"
      using StartDevServer_returns(3) [OF sd] .
    have fresh_sid: "servers w1 ?sid = None" and fresh_pid: "procs w1 (next_pid w1) = None"
      using wf1 by (simp_all add: wf_world_def)
    have none1: "\<And>sid. servers w sid = None \<Longrightarrow> servers w1 sid = None"
      and pnone1: "\<And>pid. procs w pid = None \<Longrightarrow> procs w1 pid = None"
      using s1 by (simp_all add: same_support_def)
    show ?thesis
    proof (cases r)
      case (Inl e)
      then have w3: "w3 = ?w2"
        using spawn_eq by (auto simp: spawn_dev_server_def split: spawn_outcome.splits)
      have w': "w' = on_server ?sid proxy_Stop ?w2"
        using run sp False sd Inl w3 by (simp add: restart_body_def Let_def)
      have srv: "\<forall>sid srv. servers w sid = None \<and> servers w' sid = Some srv
                   \<longrightarrow> server srv = Closed"
      proof (intro allI impI)
        fix sid srv
        assume a: "servers w sid = None \<and> servers w' sid = Some srv"
        show "server srv = Closed"
        proof (cases "sid = ?sid")
          case True
          then show ?thesis using a w' on_server_stop_closed by blast
        next
          case False
          then have "servers w' sid = servers w1 sid"
            using w' by (simp add: on_server_other)
          then show ?thesis using a none1 by simp
        qed
      qed
      have "procs w' = procs w1" using w' by (simp add: on_server_procs)
      then have prc: "\<forall>pid pr. procs w pid = None \<and> procs w' pid = Some pr \<longrightarrow>
            \<not> alive pr \<or> response pr = KillFails \<or> response pr = SurvivesKill"
        using pnone1 by auto
      show ?thesis using srv prc by blast
    next
      case (Inr u)
      let ?pid = "next_pid w1"
      from spawn_eq Inr obtain rsp where started: "spawn env = Started rsp"
        by (auto simp: spawn_dev_server_def split: spawn_outcome.splits)
      have w3: "w3 = ?w2\<lparr>procs := (procs ?w2)(?pid \<mapsto> \<lparr>alive = True, response = rsp, port = tp\<rparr>),
                         next_pid := Suc ?pid\<rparr>"
        and cur: "currentCmd sup3 = Some ?pid"
        using spawn_eq started by (simp_all add: spawn_dev_server_def mutex_unlock_def)
      have timeout: "\<not> waitForAppReady (probes env)"
        using run sp False sd Inr by (auto simp: restart_body_def Let_def split: if_splits)
      let ?w3s = "on_server ?sid proxy_Stop w3"
      from run sp False sd Inr timeout obtain gone sup4
        where fin: "StopCurrentProcess ?w3s sup3 = Some (gone, w', sup4)"
        by (auto simp: restart_body_def Let_def split: option.splits)
      have s34: "same_support ?w3s w'" and srv4: "servers w' = servers ?w3s"
        using StopCurrentProcess_support [OF fin] by simp_all
      have srv: "\<forall>sid srv. servers w sid = None \<and> servers w' sid = Some srv
                   \<longrightarrow> server srv = Closed"
      proof (intro allI impI)
        fix sid srv
        assume a: "servers w sid = None \<and> servers w' sid = Some srv"
        show "server srv = Closed"
        proof (cases "sid = ?sid")
          case True
          then show ?thesis using a srv4 on_server_stop_closed by metis
        next
          case False
          then have "servers w' sid = servers w1 sid"
            using srv4 w3 by (simp add: on_server_other)
          then show ?thesis using a none1 by simp
        qed
      qed
      have at_pid: "procs ?w3s ?pid = Some \<lparr>alive = True, response = rsp, port = tp\<rparr>"
        using w3 by (simp add: on_server_procs)
      from StopCurrentProcess_current [OF fin cur at_pid] obtain pr'
        where pr': "procs w' ?pid = Some pr'"
          "\<not> alive pr' \<or> response pr' = KillFails \<or> response pr' = SurvivesKill" by blast
      have prc: "\<forall>pid pr. procs w pid = None \<and> procs w' pid = Some pr \<longrightarrow>
            \<not> alive pr \<or> response pr = KillFails \<or> response pr = SurvivesKill"
      proof (intro allI impI)
        fix pid pr
        assume a: "procs w pid = None \<and> procs w' pid = Some pr"
        show "\<not> alive pr \<or> response pr = KillFails \<or> response pr = SurvivesKill"
        proof (cases "pid = ?pid")
          case True
          then show ?thesis using a pr' by simp
        next
          case False
          have "procs ?w3s pid = procs w1 pid" using w3 False by (simp add: on_server_procs)
          then have "procs ?w3s pid = None" using a pnone1 by simp
          then have "procs w' pid = None" using s34 by (simp add: same_support_def)
          then show ?thesis using a by simp
        qed
      qed
      show ?thesis using srv prc by blast
    qed
  qed
qed

text \<open>
  C3 does not hold of the code. A caller that finds \<open>restarting\<close> set is meant to wait
  for the restart in flight (the comment on that branch reads "If already restarting, just
  wait for it to complete"), but the branch runs a probe loop of its own against
  \<open>o.appPort\<close>, which holds the port of the previous child until the restart in flight has
  stopped that child and recorded the new port. In the run below the restart in flight has
  set the flag and is about to stop the old child (port 5000): first, \<open>setRestarting\<close>
  sets the flag; second, the other caller's probe is answered by the old child and that
  caller returns success, changing nothing; third, the restart in flight goes on from the
  same state, fails to start the new dev server and returns an error.
\<close>

theorem C3_waiter_succeeds_while_restart_fails:
  "setRestarting True
     \<lparr>supervisor = \<lparr>currentCmd = Some 0, cmdMutex = False, processOutput = []\<rparr>,
      proxyServer = Some 0, isRestarting = False, o_appPort = 5000\<rparr>
     = (True,
        \<lparr>supervisor = \<lparr>currentCmd = Some 0, cmdMutex = False, processOutput = []\<rparr>,
         proxyServer = Some 0, isRestarting = True, o_appPort = 5000\<rparr>)
   \<and> RestartProject
       \<lparr>statics = \<lparr>executable = None, read_file = Map.empty\<rparr>, node_modules_missing = False,
        install_succeeds = True, stop_deadline_hit = False, listen_ok = True,
        spawn = StartFails, probes = [True]\<rparr>
       3000 5002
       \<lparr>procs = [0 \<mapsto> \<lparr>alive = True, response = ExitsOnInterrupt, port = 5000\<rparr>],
        next_pid = 1,
        servers = [0 \<mapsto> \<lparr>server = Serving, appPort = 5000, isLoading = False,
                          cache = Map.empty\<rparr>],
        next_server = 1\<rparr>
       \<lparr>supervisor = \<lparr>currentCmd = Some 0, cmdMutex = False, processOutput = []\<rparr>,
        proxyServer = Some 0, isRestarting = True, o_appPort = 5000\<rparr>
     = Some (Inr (),
        \<lparr>procs = [0 \<mapsto> \<lparr>alive = True, response = ExitsOnInterrupt, port = 5000\<rparr>],
         next_pid = 1,
         servers = [0 \<mapsto> \<lparr>server = Serving, appPort = 5000, isLoading = False,
                           cache = Map.empty\<rparr>],
         next_server = 1\<rparr>,
        \<lparr>supervisor = \<lparr>currentCmd = Some 0, cmdMutex = False, processOutput = []\<rparr>,
         proxyServer = Some 0, isRestarting = True, o_appPort = 5000\<rparr>)
   \<and> map_option fst
       (restart_body
         \<lparr>statics = \<lparr>executable = None, read_file = Map.empty\<rparr>, node_modules_missing = False,
          install_succeeds = True, stop_deadline_hit = False, listen_ok = True,
          spawn = StartFails, probes = []\<rparr>
         3000 5001
         \<lparr>procs = [0 \<mapsto> \<lparr>alive = True, response = ExitsOnInterrupt, port = 5000\<rparr>],
          next_pid = 1,
          servers = [0 \<mapsto> \<lparr>server = Serving, appPort = 5000, isLoading = False,
                            cache = Map.empty\<rparr>],
          next_server = 1\<rparr>
         \<lparr>supervisor = \<lparr>currentCmd = Some 0, cmdMutex = False, processOutput = []\<rparr>,
          proxyServer = Some 0, isRestarting = True, o_appPort = 5000\<rparr>)
     = Some (Inl (DevServerFailed StartError))"
  by (simp add: RestartProject_def setRestarting_def restart_body_def StopProject_def
      stop_proxy_opt_def StopCurrentProcess_def mutex_lock_def mutex_unlock_def
      StartDevServer_def spawn_dev_server_def NewProxyServer_def preloadStaticFiles_def
      readStaticFile_def SetLoadingMode_def proxy_Start_def proxy_Stop_def on_server_def
      process_exits_def Let_def)


text \<open>
  C2, as stated, fails. When the readiness probe times out, the child is stopped through
  \<open>StopCurrentProcess\<close>, which gives up when the kill fails or does not take effect
  within two seconds: a child that survives the kill is still alive, and still the
  current child, when the restart returns its error.
\<close>

theorem C2_child_survives_failed_restart:
  "RestartProject
     \<lparr>statics = \<lparr>executable = None, read_file = Map.empty\<rparr>, node_modules_missing = False,
      install_succeeds = True, stop_deadline_hit = False, listen_ok = True,
      spawn = Started SurvivesKill, probes = [False, False]\<rparr>
     3000 5173
     \<lparr>procs = Map.empty, next_pid = 0, servers = Map.empty, next_server = 0\<rparr>
     \<lparr>supervisor = \<lparr>currentCmd = None, cmdMutex = False, processOutput = []\<rparr>,
      proxyServer = None, isRestarting = False, o_appPort = 0\<rparr>
   = Some (Inl AppFailedToStart,
       \<lparr>procs = [0 \<mapsto> \<lparr>alive = True, response = SurvivesKill, port = 5173\<rparr>], next_pid = 1,
        servers = [0 \<mapsto> \<lparr>server = Closed, appPort = 5173, isLoading = True,
                          cache = Map.empty\<rparr>],
        next_server = 1\<rparr>,
       \<lparr>supervisor = \<lparr>currentCmd = Some 0, cmdMutex = False, processOutput = []\<rparr>,
        proxyServer = Some 0, isRestarting = False, o_appPort = 5173\<rparr>)"
  by (simp add: RestartProject_def setRestarting_def restart_body_def StopProject_def
      stop_proxy_opt_def StopCurrentProcess_def mutex_lock_def mutex_unlock_def
      StartDevServer_def spawn_dev_server_def NewProxyServer_def preloadStaticFiles_def
      readStaticFile_def SetLoadingMode_def proxy_Start_def proxy_Stop_def on_server_def
      Let_def)

text \<open>
  C2, amended. For every restart that returns an error: every proxy created during the
  restart has been shut down before the return; and every child started during the
  restart has been stopped through \<open>StopCurrentProcess\<close>, so that it is no longer alive
  unless that stop itself failed (the kill failed, or the process was still there two
  seconds after the kill).
\<close>

theorem C2_failed_restart_teardown:
  assumes wf: "wf_world w"
    and failed: "RestartProject env listenPort targetPort w orch = Some (Inl err, w', orch')"
  shows "(\<forall>sid srv. servers w sid = None \<and> servers w' sid = Some srv \<longrightarrow> server srv = Closed)
       \<and> (\<forall>pid pr. procs w pid = None \<and> procs w' pid = Some pr \<longrightarrow>
            \<not> alive pr \<or> response pr = KillFails \<or> response pr = SurvivesKill)"
proof (cases "isRestarting orch")
  case True
  then have "w' = w" using failed by (simp add: RestartProject_def setRestarting_def)
  then show ?thesis using no_new_when_same_support [OF same_support_refl [of w]] by simp
next
  case False
  then obtain o2 where "restart_body env listenPort targetPort w (orch\<lparr>isRestarting := True\<rparr>)
      = Some (Inl err, w', o2)"
    using failed by (auto simp: RestartProject_def setRestarting_def split: option.splits)
  then show ?thesis using restart_body_failed [OF wf] by blast
qed


theorem C2_failed_restart_teardown_witness:
  "\<exists>w' orch'.
     RestartProject
       \<lparr>statics = \<lparr>executable = None, read_file = Map.empty\<rparr>, node_modules_missing = False,
        install_succeeds = True, stop_deadline_hit = False, listen_ok = True,
        spawn = Started ExitsOnKill, probes = [False, False]\<rparr>
       3000 5173
       \<lparr>procs = Map.empty, next_pid = 0, servers = Map.empty, next_server = 0\<rparr>
       \<lparr>supervisor = \<lparr>currentCmd = None, cmdMutex = False, processOutput = []\<rparr>,
        proxyServer = None, isRestarting = False, o_appPort = 0\<rparr>
       = Some (Inl AppFailedToStart, w', orch')
     \<and> map_option server (servers w' 0) = Some Closed
     \<and> map_option alive (procs w' 0) = Some False"
proof -
  let ?env = "\<lparr>statics = \<lparr>executable = None, read_file = Map.empty\<rparr>,
        node_modules_missing = False,
        install_succeeds = True, stop_deadline_hit = False, listen_ok = True,
        spawn = Started ExitsOnKill, probes = [False, False]\<rparr>"
  let ?w = "\<lparr>procs = Map.empty, next_pid = 0, servers = Map.empty, next_server = 0\<rparr>"
  let ?o = "\<lparr>supervisor = \<lparr>currentCmd = None, cmdMutex = False, processOutput = []\<rparr>,
        proxyServer = None, isRestarting = False, o_appPort = 0\<rparr>"
  let ?w' = "\<lparr>procs = [0 \<mapsto> \<lparr>alive = False, response = ExitsOnKill, port = 5173\<rparr>],
        next_pid = 1,
        servers = [0 \<mapsto> \<lparr>server = Closed, appPort = 5173, isLoading = True,
                          cache = Map.empty\<rparr>],
        next_server = 1\<rparr>"
  let ?o' = "\<lparr>supervisor = \<lparr>currentCmd = None, cmdMutex = False, processOutput = []\<rparr>,
        proxyServer = Some 0, isRestarting = False, o_appPort = 5173\<rparr>"
  have wf: "wf_world ?w" by (simp add: wf_world_def)
  have run: "RestartProject ?env 3000 5173 ?w ?o = Some (Inl AppFailedToStart, ?w', ?o')"
    by (simp add: RestartProject_def setRestarting_def restart_body_def StopProject_def
      stop_proxy_opt_def StopCurrentProcess_def mutex_lock_def mutex_unlock_def
      StartDevServer_def spawn_dev_server_def NewProxyServer_def preloadStaticFiles_def
      readStaticFile_def SetLoadingMode_def proxy_Start_def proxy_Stop_def on_server_def
      process_exits_def Let_def)
  from C2_failed_restart_teardown [OF wf run]
  have srv: "\<And>sid srv. servers ?w sid = None \<Longrightarrow> servers ?w' sid = Some srv
               \<Longrightarrow> server srv = Closed"
    and prc: "\<And>pid pr. procs ?w pid = None \<Longrightarrow> procs ?w' pid = Some pr
               \<Longrightarrow> \<not> alive pr \<or> response pr = KillFails \<or> response pr = SurvivesKill"
    by blast+
  have a: "map_option server (servers ?w' 0) = Some Closed"
    using srv [of 0 "\<lparr>server = Closed, appPort = 5173, isLoading = True, cache = Map.empty\<rparr>"]
    by simp
  have b: "map_option alive (procs ?w' 0) = Some False"
    using prc [of 0 "\<lparr>alive = False, response = ExitsOnKill, port = 5173\<rparr>"] by simp
  show ?thesis
    by (rule exI [where x = ?w'], rule exI [where x = ?o'], intro conjI, rule run, rule a, rule b)
qed


text \<open>
  C4 does not hold of the code. \<open>StartDevServer\<close> takes \<open>cmdMutex\<close> and, when a child
  exists, calls \<open>StopCurrentProcess\<close>, which takes the same mutex. Go's \<open>sync.Mutex\<close> is
  not reentrant, so that call blocks for ever: a call of \<open>StartDevServer\<close> made while a
  child exists (and no other call holds the mutex) never returns. It reports no error,
  spawns nothing, and keeps the mutex.
\<close>

theorem C4_start_with_child_never_returns:
  assumes "currentCmd s \<noteq> None" and "\<not> cmdMutex s"
  shows "StartDevServer env p w s = None"
  using assms by (simp add: StartDevServer_def StopCurrentProcess_def mutex_lock_def)

theorem C4_start_with_child_never_returns_witness:
  "currentCmd \<lparr>currentCmd = Some 0, cmdMutex = False, processOutput = []\<rparr> \<noteq> None
   \<and> StartDevServer
        \<lparr>statics = \<lparr>executable = None, read_file = Map.empty\<rparr>, node_modules_missing = False,
         install_succeeds = True, stop_deadline_hit = False, listen_ok = True,
         spawn = Started ExitsOnInterrupt, probes = [True]\<rparr>
        5174
        \<lparr>procs = [0 \<mapsto> \<lparr>alive = True, response = ExitsOnInterrupt, port = 5173\<rparr>],
         next_pid = 1, servers = Map.empty, next_server = 0\<rparr>
        \<lparr>currentCmd = Some 0, cmdMutex = False, processOutput = []\<rparr>
      = None"
proof -
  let ?s = "\<lparr>currentCmd = Some (0::nat), cmdMutex = False, processOutput = []\<rparr>"
  have a: "currentCmd ?s \<noteq> None" and b: "\<not> cmdMutex ?s" by simp_all
  show ?thesis using C4_start_with_child_never_returns [OF a b] by simp
qed

end
